theory Spec2Isabelle
  imports Complex_Main "HOL-Library.Word"
begin

section \<open>Data model (server.go, lines 17-61)\<close>

text \<open>
  Go strings are byte sequences; \<^typ>\<open>string\<close> is a list of 8-bit characters, so
  \<^const>\<open>length\<close> is Go's \<open>len\<close> (a count of bytes, not of Unicode code points).
  Go's \<open>int\<close> is taken to be 64 bits wide (every 64-bit platform): arithmetic wraps.
\<close>

type_synonym go_int = "64 word"

record Item =
  ShortDescription :: string
  Price :: string

record Receipt =
  Retailer :: string
  PurchaseDate :: string
  PurchaseTime :: string
  Items :: "Item list"
  Total :: string

text \<open>\<open>receiptStore\<close>, the map from identifiers to receipts (line 58).\<close>

type_synonym receiptStore = "string \<rightharpoonup> Receipt"

section \<open>The Go library functions that calculatePoints calls\<close>

text \<open>Go's \<open>len\<close>, of type \<open>int\<close>.\<close>

definition len :: "'a list \<Rightarrow> go_int" where
  "len xs = of_nat (length xs)"

text \<open>
  Go's \<open>%\<close> and \<open>/\<close> on \<open>int\<close> truncate towards zero. (They panic on a zero divisor; the
  divisors of calculatePoints are the constants 25, 2 and 3.)
\<close>

definition go_rem :: "go_int \<Rightarrow> go_int \<Rightarrow> go_int" where
  "go_rem a b = word_of_int (sgn (sint a) * (\<bar>sint a\<bar> mod \<bar>sint b\<bar>))"

definition go_quo :: "go_int \<Rightarrow> go_int \<Rightarrow> go_int" where
  "go_quo a b = word_of_int (sgn (sint a) * sgn (sint b) * (\<bar>sint a\<bar> div \<bar>sint b\<bar>))"

subsection \<open>strings.HasSuffix, strings.ReplaceAll, strings.Split\<close>

definition HasSuffix :: "string \<Rightarrow> string \<Rightarrow> bool" where
  "HasSuffix s suffix \<longleftrightarrow>
     length suffix \<le> length s \<and> drop (length s - length suffix) s = suffix"

text \<open>\<open>strings.ReplaceAll(s, old, new)\<close> for a one-byte \<open>old\<close>.\<close>

definition ReplaceAll :: "string \<Rightarrow> char \<Rightarrow> string \<Rightarrow> string" where
  "ReplaceAll s old new = concat (map (\<lambda>c. if c = old then new else [c]) s)"

text \<open>\<open>strings.Split(s, sep)\<close> for a one-byte \<open>sep\<close>: one more part than separators.\<close>

fun Split :: "string \<Rightarrow> char \<Rightarrow> string list" where
  "Split [] sep = [[]]"
| "Split (c # s) sep =
     (if c = sep then [] # Split s sep
      else (case Split s sep of [] \<Rightarrow> [[c]] | p # ps \<Rightarrow> (c # p) # ps))"

subsection \<open>strconv.Atoi\<close>

datatype NumError = ErrSyntax | ErrRange

definition isDigit :: "char \<Rightarrow> bool" where
  "isDigit c \<longleftrightarrow> 48 \<le> (of_char c :: nat) \<and> (of_char c :: nat) \<le> 57"

definition digitVal :: "char \<Rightarrow> int" where
  "digitVal c = of_char c - 48"

text \<open>
  \<open>strconv.ParseUint(s, 10, 64)\<close> after the empty-string check: the digits are read from
  the left; a byte that is no digit is a syntax error (value 0), a value above
  \<open>2^64 - 1\<close> is a range error (value \<open>2^64 - 1\<close>), whichever comes first.
\<close>

fun ParseUint_loop :: "int \<Rightarrow> string \<Rightarrow> int \<times> NumError option" where
  "ParseUint_loop n [] = (n, None)"
| "ParseUint_loop n (c # s) =
     (if \<not> isDigit c then (0, Some ErrSyntax)
      else if n * 10 + digitVal c > 2 ^ 64 - 1 then (2 ^ 64 - 1, Some ErrRange)
      else ParseUint_loop (n * 10 + digitVal c) s)"

definition ParseUint :: "string \<Rightarrow> int \<times> NumError option" where
  "ParseUint s = (if s = [] then (0, Some ErrSyntax) else ParseUint_loop 0 s)"

text \<open>
  \<open>strconv.ParseInt(s, 10, 0)\<close>: an optional sign, then ParseUint; a magnitude outside
  the range of \<open>int\<close> gives the nearest bound and a range error. \<open>strconv.Atoi\<close> returns
  the same pair (its fast path for short strings computes the same values).
\<close>

definition ParseInt :: "string \<Rightarrow> go_int \<times> NumError option" where
  "ParseInt s =
     (if s = [] then (0, Some ErrSyntax)
      else
        let neg = (hd s = CHR ''-'');
            s' = (if hd s = CHR ''+'' \<or> hd s = CHR ''-'' then tl s else s)
        in case ParseUint s' of
             (un, Some ErrSyntax) \<Rightarrow> (0, Some ErrSyntax)
           | (un, _) \<Rightarrow>
               if \<not> neg \<and> un \<ge> 2 ^ 63 then (word_of_int (2 ^ 63 - 1), Some ErrRange)
               else if neg \<and> un > 2 ^ 63 then (word_of_int (- (2 ^ 63)), Some ErrRange)
               else (if neg then - word_of_int un else word_of_int un, None))"

definition Atoi :: "string \<Rightarrow> go_int \<times> NumError option" where
  "Atoi s = ParseInt s"

subsection \<open>regexp: FindAllString for the pattern [a-zA-Z0-9]\<close>

definition alnum :: "char \<Rightarrow> bool" where
  "alnum c \<longleftrightarrow>
     (let n = (of_char c :: nat)
      in (97 \<le> n \<and> n \<le> 122) \<or> (65 \<le> n \<and> n \<le> 90) \<or> (48 \<le> n \<and> n \<le> 57))"

text \<open>
  Every match of a one-character class is one byte, matches do not overlap, and all
  of them are returned (\<open>n = -1\<close>), from left to right.
\<close>

definition FindAllString_alnum :: "string \<Rightarrow> string list" where
  "FindAllString_alnum s = map (\<lambda>c. [c]) (filter alnum s)"

subsection \<open>time.Parse with the layout "15:04"\<close>

text \<open>
  \<open>getnum(s, fixed)\<close> of package time: one or two leading digits; with \<open>fixed\<close> exactly
  two are required.
\<close>

fun getnum :: "string \<Rightarrow> bool \<Rightarrow> (int \<times> string) option" where
  "getnum [] fixed = None"
| "getnum [c] fixed =
     (if \<not> isDigit c \<or> fixed then None else Some (digitVal c, []))"
| "getnum (c # d # s) fixed =
     (if \<not> isDigit c then None
      else if \<not> isDigit d then (if fixed then None else Some (digitVal c, d # s))
      else Some (digitVal c * 10 + digitVal d, s))"

text \<open>
  The layout "15:04" is the hour (\<open>stdHour\<close>: one or two digits, below 24), the literal
  colon, the minute (\<open>stdZeroMinute\<close>: two digits, below 60), and nothing after it. The
  result is the pair \<open>(Hour(), Minute())\<close> of the parsed time, or \<open>None\<close> for an error.
\<close>

definition Parse_15_04 :: "string \<Rightarrow> (int \<times> int) option" where
  "Parse_15_04 v =
     (case getnum v False of
        None \<Rightarrow> None
      | Some (hour, v1) \<Rightarrow>
          if 24 \<le> hour then None
          else (case v1 of
                  [] \<Rightarrow> None
                | c # v2 \<Rightarrow>
                    if c \<noteq> CHR '':'' then None
                    else (case getnum v2 True of
                            None \<Rightarrow> None
                          | Some (minute, v3) \<Rightarrow>
                              if 60 \<le> minute then None
                              else if v3 \<noteq> [] then None
                              else Some (hour, minute))))"

subsection \<open>strings.TrimSpace\<close>

text \<open>
  TrimSpace removes the leading and the trailing white space as Unicode defines it
  (\<open>unicode.IsSpace\<close>). On the bytes of the string these are the UTF-8 encodings of
  U+0009..U+000D, U+0020, U+0085, U+00A0, U+1680, U+2000..U+200A, U+2028, U+2029,
  U+202F, U+205F and U+3000. \<open>spaceWidth s\<close> is the width in bytes of the white-space
  character that \<open>s\<close> starts with, or 0.
\<close>

definition byte :: "string \<Rightarrow> nat \<Rightarrow> nat" where
  "byte s i = (if i < length s then of_char (s ! i) else 256)"

definition spaceWidth :: "string \<Rightarrow> nat" where
  "spaceWidth s =
     (let b0 = byte s 0; b1 = byte s 1; b2 = byte s 2
      in if (9 \<le> b0 \<and> b0 \<le> 13) \<or> b0 = 32 then 1
         else if b0 = 194 \<and> (b1 = 133 \<or> b1 = 160) then 2
         else if b0 = 225 \<and> b1 = 154 \<and> b2 = 128 then 3
         else if b0 = 226 \<and> b1 = 128 \<and>
                 ((128 \<le> b2 \<and> b2 \<le> 138) \<or> b2 = 168 \<or> b2 = 169 \<or> b2 = 175) then 3
         else if b0 = 226 \<and> b1 = 129 \<and> b2 = 159 then 3
         else if b0 = 227 \<and> b1 = 128 \<and> b2 = 128 then 3
         else 0)"

text \<open>The same for the white-space character that \<open>s\<close> ends with.\<close>

definition lastSpaceWidth :: "string \<Rightarrow> nat" where
  "lastSpaceWidth s =
     (let n = length s;
          w = (if 1 \<le> n \<and> spaceWidth (drop (n - 1) s) = 1 then 1
               else if 2 \<le> n \<and> spaceWidth (drop (n - 2) s) = 2 then 2
               else if 3 \<le> n \<and> spaceWidth (drop (n - 3) s) = 3 then 3
               else 0)
      in w)"

function TrimLeftSpace :: "string \<Rightarrow> string" where
  "TrimLeftSpace s =
     (if spaceWidth s = 0 \<or> s = [] then s else TrimLeftSpace (drop (spaceWidth s) s))"
  by pat_completeness auto
termination
  by (relation "measure length") auto

function TrimRightSpace :: "string \<Rightarrow> string" where
  "TrimRightSpace s =
     (if lastSpaceWidth s = 0 \<or> s = [] then s
      else TrimRightSpace (take (length s - lastSpaceWidth s) s))"
  by pat_completeness auto
termination
  by (relation "measure length") auto

declare TrimLeftSpace.simps [simp del] TrimRightSpace.simps [simp del]

definition TrimSpace :: "string \<Rightarrow> string" where
  "TrimSpace s = TrimRightSpace (TrimLeftSpace s)"

section \<open>float64\<close>

text \<open>
  A float64 value is a finite binary number \<open>m * 2^e\<close>, an infinity with its sign
  (\<open>True\<close> for negative) or NaN. The finite values of the type are those with
  \<open>\<bar>m\<bar> < 2^53\<close> and \<open>-1074 \<le> e \<le> 971\<close>; the functions below return no others, as
  the lemmas on \<open>float64_representable\<close> show.
  The sign of a zero is not kept: the product with a constant, \<open>math.Ceil\<close> and the
  conversion to \<open>int\<close> end in the integer 0 for either zero.
\<close>

datatype float64 = Finite int int | Infinity bool | NaN

definition float64_representable :: "float64 \<Rightarrow> bool" where
  "float64_representable f =
     (case f of Finite m e \<Rightarrow> \<bar>m\<bar> < 2 ^ 53 \<and> - 1074 \<le> e \<and> e \<le> 971 | _ \<Rightarrow> True)"

text \<open>The integer nearest to \<open>n / d\<close> (\<open>0 \<le> n\<close>, \<open>0 < d\<close>), a tie going to the even one.\<close>

definition round_half_even :: "int \<Rightarrow> int \<Rightarrow> int" where
  "round_half_even n d =
     (let q = n div d; r = n mod d
      in if 2 * r < d then q
         else if 2 * r > d then q + 1
         else if even q then q else q + 1)"

text \<open>The number of binary digits of a positive integer.\<close>

function bitlen :: "int \<Rightarrow> int" where
  "bitlen a = (if a \<le> 0 then 0 else 1 + bitlen (a div 2))"
  by pat_completeness auto
termination
  by (relation "measure nat") auto

declare bitlen.simps [simp del]

text \<open>\<open>\<lfloor>log\<^sub>2 (a / d)\<rfloor>\<close> for positive \<open>a\<close> and \<open>d\<close>.\<close>

definition ilog2 :: "int \<Rightarrow> int \<Rightarrow> int" where
  "ilog2 a d =
     (let k = bitlen a - bitlen d
      in if d * 2 ^ nat k \<le> a * 2 ^ nat (- k) then k else k - 1)"

text \<open>
  IEEE 754 rounding to nearest, ties to even, of the rational \<open>num / den\<close> (\<open>0 < den\<close>)
  to a float64: 53 significant bits for a normal result, a multiple of \<open>2^-1074\<close> for a
  subnormal one, and an infinity when the rounded magnitude reaches \<open>2^1024\<close>.
\<close>

definition float64_round :: "int \<Rightarrow> int \<Rightarrow> float64" where
  "float64_round num den =
     (if num = 0 then Finite 0 0
      else
        let a = \<bar>num\<bar>;
            e = max (ilog2 a den - 52) (- 1074);
            m = round_half_even (a * 2 ^ nat (- e)) (den * 2 ^ nat e);
            e' = (if m = 2 ^ 53 then e + 1 else e);
            m' = (if m = 2 ^ 53 then 2 ^ 52 else m)
        in if e' > 971 then Infinity (num < 0) else Finite (sgn num * m') e')"

text \<open>The float64 nearest to \<open>m * 2^e\<close>.\<close>

definition float64_of_binary :: "int \<Rightarrow> int \<Rightarrow> float64" where
  "float64_of_binary m e =
     (if 0 \<le> e then float64_round (m * 2 ^ nat e) 1 else float64_round m (2 ^ nat (- e)))"

text \<open>The float64 nearest to \<open>m * 10^e\<close>.\<close>

definition float64_of_decimal :: "int \<Rightarrow> int \<Rightarrow> float64" where
  "float64_of_decimal m e =
     (if 0 \<le> e then float64_round (m * 10 ^ nat e) 1 else float64_round m (10 ^ nat (- e)))"

text \<open>The operator \<open>*\<close> on float64: the exact product, rounded.\<close>

fun float64_mul :: "float64 \<Rightarrow> float64 \<Rightarrow> float64" where
  "float64_mul (Finite m1 e1) (Finite m2 e2) = float64_of_binary (m1 * m2) (e1 + e2)"
| "float64_mul NaN y = NaN"
| "float64_mul x NaN = NaN"
| "float64_mul (Infinity s) (Finite m e) = (if m = 0 then NaN else Infinity (s \<noteq> (m < 0)))"
| "float64_mul (Finite m e) (Infinity s) = (if m = 0 then NaN else Infinity (s \<noteq> (m < 0)))"
| "float64_mul (Infinity s) (Infinity t) = Infinity (s \<noteq> t)"

text \<open>\<open>math.Ceil\<close>: the least integral value not below the argument; exact.\<close>

fun Ceil :: "float64 \<Rightarrow> float64" where
  "Ceil (Finite m e) = (if 0 \<le> e then Finite m e else Finite (- ((- m) div 2 ^ nat (- e))) 0)"
| "Ceil (Infinity s) = Infinity s"
| "Ceil NaN = NaN"

text \<open>
  The conversion \<open>int(f)\<close> drops the fraction. The Go specification leaves the result
  to the implementation when the value does not fit \<open>int\<close> (which includes the
  infinities and NaN); \<open>unrep\<close> stands for what the implementation returns then.
\<close>

definition float64_trunc :: "int \<Rightarrow> int \<Rightarrow> int" where
  "float64_trunc m e = (if 0 \<le> e then m * 2 ^ nat e else sgn m * (\<bar>m\<bar> div 2 ^ nat (- e)))"

fun float64_to_int :: "(float64 \<Rightarrow> go_int) \<Rightarrow> float64 \<Rightarrow> go_int" where
  "float64_to_int unrep (Finite m e) =
     (let v = float64_trunc m e
      in if - (2 ^ 63) \<le> v \<and> v < 2 ^ 63 then word_of_int v else unrep (Finite m e))"
| "float64_to_int unrep f = unrep f"

text \<open>
  On amd64 the instruction that Go compiles the conversion to yields the least
  \<open>int\<close> for every such value.
\<close>

definition unrep_amd64 :: "float64 \<Rightarrow> go_int" where
  "unrep_amd64 f = word_of_int (- (2 ^ 63))"

subsection \<open>strconv.ParseFloat\<close>

text \<open>\<open>lower(c)\<close> of strconv: the byte with bit \<open>0x20\<close> set.\<close>

definition lower :: "char \<Rightarrow> nat" where
  "lower c = (let n = (of_char c :: nat) in if (n div 32) mod 2 = 0 then n + 32 else n)"

definition hexLetter :: "char \<Rightarrow> bool" where
  "hexLetter c \<longleftrightarrow> 97 \<le> lower c \<and> lower c \<le> 102"

text \<open>
  \<open>special\<close>: the strings "inf" and "infinity" with an optional sign, and "nan", in any
  mix of cases. (A longer string that starts like one of them is a syntax error
  in ParseFloat, as is every other string without a digit.)
\<close>

definition special :: "string \<Rightarrow> float64 option" where
  "special s =
     (let neg = (s \<noteq> [] \<and> hd s = CHR ''-'');
          t = (if s \<noteq> [] \<and> (hd s = CHR ''+'' \<or> hd s = CHR ''-'') then tl s else s);
          l = map lower t
      in if l = map of_char ''inf'' \<or> l = map of_char ''infinity'' then Some (Infinity neg)
         else if map lower s = map of_char ''nan'' then Some NaN
         else None)"

text \<open>
  \<open>underscoreOK\<close>: an underscore may stand only between two digits, or between a
  base prefix and a digit. \<open>saw\<close> is the kind of the last byte: 0 for the start,
  1 for a digit or base prefix, 2 for an underscore, 3 for anything else.
\<close>

fun underscoreOK_loop :: "bool \<Rightarrow> nat \<Rightarrow> string \<Rightarrow> bool" where
  "underscoreOK_loop hex saw [] = (saw \<noteq> 2)"
| "underscoreOK_loop hex saw (c # s) =
     (if isDigit c \<or> (hex \<and> hexLetter c) then underscoreOK_loop hex 1 s
      else if c = CHR ''_'' then (if saw \<noteq> 1 then False else underscoreOK_loop hex 2 s)
      else if saw = 2 then False
      else underscoreOK_loop hex 3 s)"

definition underscoreOK :: "string \<Rightarrow> bool" where
  "underscoreOK s0 =
     (let s = (if s0 \<noteq> [] \<and> (hd s0 = CHR ''-'' \<or> hd s0 = CHR ''+'') then tl s0 else s0)
      in if 2 \<le> length s \<and> s ! 0 = CHR ''0'' \<and>
            (lower (s ! 1) = 98 \<or> lower (s ! 1) = 111 \<or> lower (s ! 1) = 120)
         then underscoreOK_loop (lower (s ! 1) = 120) 1 (drop 2 s)
         else underscoreOK_loop False 0 s)"

text \<open>
  The mantissa loop of \<open>readFloat\<close>. Go keeps the first 19 digits (16 in base 16) and a
  flag for the rest, and the conversion is correctly rounded all the same; the model
  keeps every digit, so \<open>mantissa\<close> is the exact value of the \<open>nd\<close> digits read.
\<close>

record mantState =
  sawdot :: bool
  sawdigits :: bool
  nd :: nat
  dp :: int
  mantissa :: int
  underscores :: bool

fun readMantissa :: "int \<Rightarrow> string \<Rightarrow> mantState \<Rightarrow> mantState \<times> string" where
  "readMantissa base [] st = (st, [])"
| "readMantissa base (c # s) st =
     (if c = CHR ''_'' then readMantissa base s (st\<lparr>underscores := True\<rparr>)
      else if c = CHR ''.'' then
        (if sawdot st then (st, c # s)
         else readMantissa base s (st\<lparr>sawdot := True, dp := int (nd st)\<rparr>))
      else if isDigit c then
        (if c = CHR ''0'' \<and> nd st = 0
         then readMantissa base s (st\<lparr>sawdigits := True, dp := dp st - 1\<rparr>)
         else readMantissa base s
                (st\<lparr>sawdigits := True, nd := nd st + 1,
                    mantissa := mantissa st * base + digitVal c\<rparr>))
      else if base = 16 \<and> hexLetter c then
        readMantissa base s
          (st\<lparr>sawdigits := True, nd := nd st + 1,
              mantissa := mantissa st * 16 + (int (lower c) - 87)\<rparr>)
      else (st, c # s))"

text \<open>The digits of the exponent; the value stops growing once it has reached 10000.\<close>

fun readExponent :: "int \<Rightarrow> bool \<Rightarrow> string \<Rightarrow> int \<times> bool \<times> string" where
  "readExponent e us [] = (e, us, [])"
| "readExponent e us (c # s) =
     (if c = CHR ''_'' then readExponent e True s
      else if isDigit c then readExponent (if e < 10000 then e * 10 + digitVal c else e) us s
      else (e, us, c # s))"

text \<open>
  \<open>readFloat\<close>: sign, optional prefix \<open>0x\<close>, mantissa, exponent (\<open>e\<close>, or \<open>p\<close> after a
  hexadecimal mantissa, where it is required). The result is the sign, the mantissa,
  the exponent of 10 (of 2 for a hexadecimal mantissa), whether the mantissa was
  hexadecimal, and the bytes left over.
\<close>

definition readFloat :: "string \<Rightarrow> (bool \<times> int \<times> int \<times> bool \<times> string) option" where
  "readFloat s =
     (if s = [] then None
      else
        let neg = (hd s = CHR ''-'');
            s1 = (if hd s = CHR ''+'' \<or> hd s = CHR ''-'' then tl s else s);
            hex = (2 < length s1 \<and> s1 ! 0 = CHR ''0'' \<and> lower (s1 ! 1) = 120);
            base = (if hex then 16 else 10);
            expChar = (if hex then 112 else 101);
            (st, s3) = readMantissa base (if hex then drop 2 s1 else s1)
                         \<lparr>sawdot = False, sawdigits = False, nd = 0, dp = 0, mantissa = 0,
                          underscores = False\<rparr>
        in if \<not> sawdigits st then None
           else
             let dp0 = (if sawdot st then dp st else int (nd st));
                 dp1 = (if hex then dp0 * 4 else dp0);
                 ndMant = (if hex then int (nd st) * 4 else int (nd st))
             in if s3 \<noteq> [] \<and> lower (hd s3) = expChar then
                  (case tl s3 of
                     [] \<Rightarrow> None
                   | c # s4 \<Rightarrow>
                       let esign = (if c = CHR ''-'' then - 1 else 1);
                           s5 = (if c = CHR ''+'' \<or> c = CHR ''-'' then s4 else c # s4)
                       in if s5 = [] \<or> \<not> isDigit (hd s5) then None
                          else
                            (case readExponent 0 False s5 of
                               (e, us, s6) \<Rightarrow>
                                 if (underscores st \<or> us) \<and>
                                    \<not> underscoreOK (take (length s - length s6) s)
                                 then None
                                 else Some (neg, mantissa st, dp1 + e * esign - ndMant,
                                            hex, s6)))
                else if hex then None
                else if underscores st \<and> \<not> underscoreOK (take (length s - length s3) s)
                then None
                else Some (neg, mantissa st, dp1 - ndMant, hex, s3))"

text \<open>
  \<open>strconv.ParseFloat(s, 64)\<close>: the float64 nearest to the number that \<open>s\<close> denotes. A
  string that is no number as a whole is a syntax error, with the value 0; a number
  too large is a range error, with an infinity as the value.
\<close>

definition ParseFloat :: "string \<Rightarrow> float64 \<times> NumError option" where
  "ParseFloat s =
     (case special s of
        Some f \<Rightarrow> (f, None)
      | None \<Rightarrow>
          (case readFloat s of
             None \<Rightarrow> (Finite 0 0, Some ErrSyntax)
           | Some (neg, man, ex, hex, rest) \<Rightarrow>
               if rest \<noteq> [] then (Finite 0 0, Some ErrSyntax)
               else
                 let v = (if neg then - man else man);
                     f = (if hex then float64_of_binary v ex else float64_of_decimal v ex)
                 in (f, case f of Infinity sg \<Rightarrow> Some ErrRange | _ \<Rightarrow> None)))"

section \<open>calculatePoints (server.go, lines 131-195)\<close>

text \<open>
  The function adds to \<open>points\<close> in seven blocks, one for each rule. Each block is
  a function from the receipt and the points so far to the points after it. The
  argument \<open>unrep\<close>, which the source does not have, is what the platform makes of
  \<open>int(f)\<close> when \<open>f\<close> is outside the range of \<open>int\<close> (see \<open>float64_to_int\<close>); the theorems
  hold for every \<open>unrep\<close>.
\<close>

text \<open>Lines 134-144: one point for every alphanumeric character in the retailer name.\<close>

definition retailerRule :: "Receipt \<Rightarrow> go_int \<Rightarrow> go_int" where
  "retailerRule receipt points =
     (let matches = FindAllString_alnum (Retailer receipt);
          matchCount = len matches
      in points + matchCount)"

text \<open>Lines 146-150: 50 points if the total is a round dollar amount with no cents.\<close>

definition roundDollarRule :: "Receipt \<Rightarrow> go_int \<Rightarrow> go_int" where
  "roundDollarRule receipt points =
     (if HasSuffix (Total receipt) ''.00'' then points + 50 else points)"

text \<open>
  Lines 152-157: 25 points if the total is a multiple of 0.25. The error of Atoi is
  dropped and its value used whatever the error.
\<close>

definition quarterRule :: "Receipt \<Rightarrow> go_int \<Rightarrow> go_int" where
  "quarterRule receipt points =
     (let totalInCents = fst (Atoi (ReplaceAll (Total receipt) CHR ''.'' []))
      in if go_rem totalInCents 25 = 0 then points + 25 else points)"

text \<open>Lines 159-162: 5 points for every two items on the receipt.\<close>

definition itemCountRule :: "Receipt \<Rightarrow> go_int \<Rightarrow> go_int" where
  "itemCountRule receipt points =
     (let itemPoints = go_quo (len (Items receipt)) 2 * 5
      in points + itemPoints)"

text \<open>
  Lines 168-174, the body of the loop over the items: if the trimmed length of the
  description is a multiple of 3, the price times 0.2, rounded up, is added. The error
  of ParseFloat is dropped. The constant 0.2 is the float64 nearest to 1/5.
\<close>

definition itemRule :: "(float64 \<Rightarrow> go_int) \<Rightarrow> Item \<Rightarrow> go_int \<Rightarrow> go_int" where
  "itemRule unrep item points =
     (let trimmedLen = len (TrimSpace (ShortDescription item))
      in if go_rem trimmedLen 3 = 0 then
           let price = fst (ParseFloat (Price item));
               roundedPoints = float64_to_int unrep (Ceil (float64_mul price (float64_round 1 5)))
           in points + roundedPoints
         else points)"

text \<open>Lines 167-175: the loop, over the items in their order.\<close>

definition descriptionRule :: "(float64 \<Rightarrow> go_int) \<Rightarrow> Receipt \<Rightarrow> go_int \<Rightarrow> go_int" where
  "descriptionRule unrep receipt points = fold (itemRule unrep) (Items receipt) points"

text \<open>
  Lines 177-182: 6 points if the day in the purchase date is odd. \<open>dateParts[2]\<close>
  panics when the date has fewer than three parts.
\<close>

datatype panic = IndexOutOfRange

definition oddDayRule :: "Receipt \<Rightarrow> go_int \<Rightarrow> panic + go_int" where
  "oddDayRule receipt points =
     (let dateParts = Split (PurchaseDate receipt) CHR ''-''
      in if length dateParts \<le> 2 then Inl IndexOutOfRange
         else (case Atoi (dateParts ! 2) of
                 (day, None) \<Rightarrow> if go_rem day 2 = 1 then Inr (points + 6) else Inr points
               | (day, Some err) \<Rightarrow> Inr points))"

text \<open>Lines 184-191: 10 points if the time of purchase is after 2:00pm and before 4:00pm.\<close>

definition afternoonRule :: "Receipt \<Rightarrow> go_int \<Rightarrow> go_int" where
  "afternoonRule receipt points =
     (case Parse_15_04 (PurchaseTime receipt) of
        None \<Rightarrow> points
      | Some (hour, minute) \<Rightarrow>
          if (hour = 14 \<and> minute > 0) \<or> hour = 15 then points + 10 else points)"

definition calculatePoints :: "(float64 \<Rightarrow> go_int) \<Rightarrow> Receipt \<Rightarrow> panic + go_int" where
  "calculatePoints unrep receipt =
     (let points = 0;
          points = retailerRule receipt points;
          points = roundDollarRule receipt points;
          points = quarterRule receipt points;
          points = itemCountRule receipt points;
          points = descriptionRule unrep receipt points
      in case oddDayRule receipt points of
           Inl p \<Rightarrow> Inl p
         | Inr points \<Rightarrow> Inr (afternoonRule receipt points))"

section \<open>The handlers (server.go, lines 77-129)\<close>

text \<open>
  The mutex makes each access to \<open>receiptStore\<close> atomic, so a handler is a function
  from the store before it to the store after it and the response. What the handler
  takes from outside is an argument: \<open>bound\<close> is the receipt that \<open>ShouldBindJSON\<close>
  decoded (\<open>None\<close> for an error), \<open>ident\<close> (the \<open>id\<close> of the source) the string of
  \<open>uuid.New()\<close>, which is taken to succeed.
\<close>

datatype processResponse = StatusBadRequest | ReceiptResponse string

definition processReceipt ::
    "Receipt option \<Rightarrow> string \<Rightarrow> receiptStore \<Rightarrow> receiptStore \<times> processResponse" where
  "processReceipt bound ident store =
     (case bound of
        None \<Rightarrow> (store, StatusBadRequest)
      | Some receipt \<Rightarrow> (store(ident \<mapsto> receipt), ReceiptResponse ident))"

text \<open>
  A panic of calculatePoints leaves the handler; the store was read before it and is
  not written.
\<close>

datatype pointsResponse = StatusNotFound | PointsResponse go_int | Panicked panic

definition getPoints ::
    "(float64 \<Rightarrow> go_int) \<Rightarrow> string \<Rightarrow> receiptStore \<Rightarrow> receiptStore \<times> pointsResponse" where
  "getPoints unrep ident store =
     (case store ident of
        None \<Rightarrow> (store, StatusNotFound)
      | Some receipt \<Rightarrow>
          (case calculatePoints unrep receipt of
             Inl p \<Rightarrow> (store, Panicked p)
           | Inr points \<Rightarrow> (store, PointsResponse points)))"

text \<open>
  A run of the process: the store is empty at the start (line 58) and the requests
  are handled one after the other.
\<close>

datatype request = POST_process "Receipt option" string | GET_points string

fun handle :: "(float64 \<Rightarrow> go_int) \<Rightarrow> request \<Rightarrow> receiptStore \<Rightarrow> receiptStore" where
  "handle unrep (POST_process bound ident) store = fst (processReceipt bound ident store)"
| "handle unrep (GET_points ident) store = fst (getPoints unrep ident store)"

definition run :: "(float64 \<Rightarrow> go_int) \<Rightarrow> request list \<Rightarrow> receiptStore" where
  "run unrep requests = fold (handle unrep) requests Map.empty"

text \<open>The identifiers that the requests of a run registered a receipt under.\<close>

fun registered :: "request list \<Rightarrow> string set" where
  "registered [] = {}"
| "registered (POST_process (Some receipt) ident # requests) = insert ident (registered requests)"
| "registered (r # requests) = registered requests"

section \<open>Receipts of the specification's scenarios\<close>

definition scenarioA :: Receipt where
  "scenarioA =
     \<lparr>Retailer = ''Target'', PurchaseDate = ''2022-01-01'', PurchaseTime = ''13:01'',
      Items = [\<lparr>ShortDescription = ''Pepsi - 12-oz'', Price = ''1.25''\<rparr>],
      Total = ''1.25''\<rparr>"

text \<open>The request of the README, whose documented response is 31 points.\<close>

definition scenarioB :: Receipt where
  "scenarioB =
     \<lparr>Retailer = ''Target'', PurchaseDate = ''2022-01-02'', PurchaseTime = ''13:13'',
      Items = [\<lparr>ShortDescription = ''Pepsi - 12-oz'', Price = ''1.25''\<rparr>],
      Total = ''1.25''\<rparr>"

text \<open>Scenario A with the total "100.00", and with a total that is no number.\<close>

definition receipt100 :: Receipt where
  "receipt100 = scenarioA\<lparr>Total := ''100.00''\<rparr>"

definition receiptBadTotal :: Receipt where
  "receiptBadTotal = scenarioA\<lparr>Total := ''abc.00''\<rparr>"

text \<open>
  Items: a description with an accent (six bytes, five characters), a price near
  nine quadrillion, and an item of the kind the rules were written for.
\<close>

definition cremeItem :: Item where
  "cremeItem =
     \<lparr>ShortDescription = [CHR ''C'', CHR ''r'', CHR 0xC3, CHR 0xA8, CHR ''m'', CHR ''e''],
      Price = ''5.00''\<rparr>"

definition quadrillionItem :: Item where
  "quadrillionItem = \<lparr>ShortDescription = ''abc'', Price = ''9000000000000000.01''\<rparr>"

definition klarbrunnItem :: Item where
  "klarbrunnItem =
     \<lparr>ShortDescription = ''   Klarbrunn 12-PK 12 FL OZ  '', Price = ''12.00''\<rparr>"

text \<open>A valid receipt with two items of forty quintillion each.\<close>

definition receiptHuge :: Receipt where
  "receiptHuge =
     scenarioA\<lparr>Items :=
       [\<lparr>ShortDescription = ''abc'', Price = ''40000000000000000000.00''\<rparr>,
        \<lparr>ShortDescription = ''abc'', Price = ''40000000000000000000.00''\<rparr>]\<rparr>"

text \<open>
  Prices that are no decimal numbers: a hexadecimal number, a number with an
  underscore between its digits, a number with a comma. Scenario A with one such
  item in place of its own.
\<close>

definition hexItem :: Item where
  "hexItem = \<lparr>ShortDescription = ''abc'', Price = ''0x1p4''\<rparr>"

definition underscoreItem :: Item where
  "underscoreItem = \<lparr>ShortDescription = ''abc'', Price = ''1_0.00''\<rparr>"

definition commaItem :: Item where
  "commaItem = \<lparr>ShortDescription = ''abc'', Price = ''1,25''\<rparr>"

definition receiptHexPrice :: Receipt where
  "receiptHexPrice = scenarioA\<lparr>Items := [hexItem]\<rparr>"

definition receiptCommaPrice :: Receipt where
  "receiptCommaPrice = scenarioA\<lparr>Items := [commaItem]\<rparr>"

text \<open>Scenario A with the item of nine quadrillion in place of its own.\<close>

definition receiptQuadrillion :: Receipt where
  "receiptQuadrillion = scenarioA\<lparr>Items := [quadrillionItem]\<rparr>"

text \<open>
  A receipt with five items, two of which have a description whose trimmed length
  is a multiple of 3.
\<close>

definition receiptFiveItems :: Receipt where
  "receiptFiveItems =
     \<lparr>Retailer = ''Target'', PurchaseDate = ''2022-01-01'', PurchaseTime = ''13:01'',
      Items = [\<lparr>ShortDescription = ''Mountain Dew 12PK'', Price = ''6.49''\<rparr>,
               \<lparr>ShortDescription = ''Emils Cheese Pizza'', Price = ''12.25''\<rparr>,
               \<lparr>ShortDescription = ''Knorr Creamy Chicken'', Price = ''1.26''\<rparr>,
               \<lparr>ShortDescription = ''Doritos Nacho Cheese'', Price = ''3.35''\<rparr>,
               klarbrunnItem],
      Total = ''35.35''\<rparr>"

section \<open>The data model of the specification\<close>

text \<open>
  Section 3 of the specification: a date is \<open>YYYY-MM-DD\<close>, a time \<open>HH:MM\<close>, an amount
  of money a non-negative decimal with exactly two fractional digits; the retailer
  and the descriptions are not empty. These predicates are hypotheses of theorems
  about valid receipts; no function of the source checks them.
\<close>

definition digits :: "string \<Rightarrow> bool" where
  "digits s \<longleftrightarrow> list_all isDigit s"

definition validDate :: "string \<Rightarrow> bool" where
  "validDate s \<longleftrightarrow>
     length s = 10 \<and> digits (take 4 s) \<and> s ! 4 = CHR ''-'' \<and> digits (take 2 (drop 5 s)) \<and>
     s ! 7 = CHR ''-'' \<and> digits (drop 8 s)"

definition validTime :: "string \<Rightarrow> bool" where
  "validTime s \<longleftrightarrow>
     length s = 5 \<and> digits (take 2 s) \<and> s ! 2 = CHR '':'' \<and> digits (drop 3 s)"

definition validAmount :: "string \<Rightarrow> bool" where
  "validAmount s \<longleftrightarrow>
     4 \<le> length s \<and> digits (take (length s - 3) s) \<and> s ! (length s - 3) = CHR ''.'' \<and>
     digits (drop (length s - 2) s)"

definition validItem :: "Item \<Rightarrow> bool" where
  "validItem item \<longleftrightarrow> ShortDescription item \<noteq> [] \<and> validAmount (Price item)"

definition validReceipt :: "Receipt \<Rightarrow> bool" where
  "validReceipt receipt \<longleftrightarrow>
     Retailer receipt \<noteq> [] \<and> validDate (PurchaseDate receipt) \<and>
     validTime (PurchaseTime receipt) \<and> validAmount (Total receipt) \<and>
     list_all validItem (Items receipt)"

text \<open>
  The value in cents of an amount: the number that its digits denote, the decimal
  point dropped.
\<close>

definition decimalValue :: "string \<Rightarrow> int" where
  "decimalValue s = foldl (\<lambda>n c. n * 10 + digitVal c) 0 s"

definition amountCents :: "string \<Rightarrow> int" where
  "amountCents s = decimalValue (ReplaceAll s CHR ''.'' [])"

text \<open>
  The bonus of the description rule in exact arithmetic: the price times 0.2 rounded
  up, for an item whose description has a trimmed length in bytes that is a multiple
  of 3, and nothing for any other item.
\<close>

definition itemBonus :: "Item \<Rightarrow> int" where
  "itemBonus item = \<lceil>real_of_int (amountCents (Price item)) / 100 * 0.2\<rceil>"

definition descriptionBonus :: "Item \<Rightarrow> int" where
  "descriptionBonus item =
     (if length (TrimSpace (ShortDescription item)) mod 3 = 0 then itemBonus item else 0)"

text \<open>
  The length in characters (Unicode code points) of a string in UTF-8, which is
  what the specification counts: every byte but a continuation byte
  (\<open>0x80\<close> to \<open>0xBF\<close>) starts a character.
\<close>

definition characterCount :: "string \<Rightarrow> nat" where
  "characterCount s =
     length (filter (\<lambda>c. \<not> (128 \<le> (of_char c :: nat) \<and> (of_char c :: nat) < 192)) s)"

text \<open>
  A decimal number, as the specification asks of a total and of a price before it
  scores them: an optional sign, then digits with at most one decimal point among
  them, and at least one digit.
\<close>

definition decimalNumber :: "string \<Rightarrow> bool" where
  "decimalNumber s \<longleftrightarrow>
     (let t = (if s \<noteq> [] \<and> (hd s = CHR ''+'' \<or> hd s = CHR ''-'') then tl s else s)
      in list_all (\<lambda>c. isDigit c \<or> c = CHR ''.'') t \<and> list_ex isDigit t \<and>
         length (filter (\<lambda>c. c = CHR ''.'') t) \<le> 1)"

text \<open>
  The specification's score is a sum of contributions, a number without a bound.
  \<open>unboundedPoints\<close> is that sum for the seven blocks of calculatePoints: each block
  adds what the source adds, under the condition of the source, but the additions are
  those of the integers and not of \<open>int\<close>. \<open>unboundedItemPoints\<close> is what the body of
  the loop adds for an item: the integer that \<open>math.Ceil(price * 0.2)\<close> is as float64
  computes it, and \<open>2^63\<close>, above every \<open>int\<close>, where that float64 is an infinity or
  NaN.
\<close>

definition unboundedItemPoints :: "Item \<Rightarrow> int" where
  "unboundedItemPoints item =
     (if go_rem (len (TrimSpace (ShortDescription item))) 3 = 0 then
        (case Ceil (float64_mul (fst (ParseFloat (Price item))) (float64_round 1 5)) of
           Finite m e \<Rightarrow> float64_trunc m e
         | Infinity sg \<Rightarrow> 2 ^ 63
         | NaN \<Rightarrow> 2 ^ 63)
      else 0)"

definition unboundedPoints :: "Receipt \<Rightarrow> int" where
  "unboundedPoints receipt =
     int (length (FindAllString_alnum (Retailer receipt))) +
     (if HasSuffix (Total receipt) ''.00'' then 50 else 0) +
     (if go_rem (fst (Atoi (ReplaceAll (Total receipt) CHR ''.'' []))) 25 = 0 then 25 else 0) +
     int (length (Items receipt)) div 2 * 5 +
     sum_list (map unboundedItemPoints (Items receipt)) +
     (let dateParts = Split (PurchaseDate receipt) CHR ''-''
      in if length dateParts \<le> 2 then 0
         else (case Atoi (dateParts ! 2) of
                 (day, None) \<Rightarrow> if go_rem day 2 = 1 then 6 else 0
               | (day, Some err) \<Rightarrow> 0)) +
     (case Parse_15_04 (PurchaseTime receipt) of
        None \<Rightarrow> 0
      | Some (hour, minute) \<Rightarrow> if (hour = 14 \<and> minute > 0) \<or> hour = 15 then 10 else 0)"

section \<open>Checks of the model\<close>

text \<open>
  The model gives the response that the README documents for its request, and the
  library functions give what Go's give on some inputs that matter.
\<close>

lemma README_example: "calculatePoints unrep scenarioB = Inr 31"
  by code_simp

lemma TrimSpace_ascii: "TrimSpace ''   Klarbrunn 12-PK 12 FL OZ  '' = ''Klarbrunn 12-PK 12 FL OZ''"
  by code_simp

lemma TrimSpace_unicode:
  "TrimSpace [CHR 0xE2, CHR 0x80, CHR 0x80, CHR ''a'', CHR 0xC2, CHR 0xA0, CHR 0x09] = ''a''"
  by code_simp

lemma Atoi_range: "Atoi ''99999999999999999999'' = (word_of_int (2 ^ 63 - 1), Some ErrRange)"
  by code_simp

lemma Atoi_negative: "Atoi ''-125'' = (- 125, None)"
  by code_simp

lemma Split_date: "Split ''2022-01-01'' CHR ''-'' = [''2022'', ''01'', ''01'']"
  by code_simp

lemma Split_empty: "Split [] CHR ''-'' = [[]]"
  by code_simp

lemma Parse_one_digit_hour: "Parse_15_04 ''9:05'' = Some (9, 5)"
  by code_simp

lemma Parse_rejects: "Parse_15_04 ''24:00'' = None \<and> Parse_15_04 ''14:5'' = None \<and>
    Parse_15_04 ''14:05 '' = None"
  by code_simp

text \<open>
  Known conversions of ParseFloat: 0.1, a tie that goes to the even neighbour, the
  least subnormal number, a number that rounds to infinity, a hexadecimal number.
\<close>

lemma ParseFloat_tenth: "ParseFloat ''0.1'' = (Finite 7205759403792794 (- 56), None)"
  by code_simp

lemma ParseFloat_tie_to_even: "ParseFloat ''1e23'' = (Finite 5960464477539062 24, None)"
  by code_simp

lemma ParseFloat_least_subnormal: "ParseFloat ''5e-324'' = (Finite 1 (- 1074), None)"
  by code_simp

lemma ParseFloat_overflow:
  "ParseFloat ''1.7976931348623159e308'' = (Infinity False, Some ErrRange)"
  by code_simp

lemma ParseFloat_hexadecimal: "ParseFloat ''0x1p-2'' = (Finite 4503599627370496 (- 54), None)"
  by code_simp

section \<open>The registry\<close>

lemma dom_handle:
  "dom (handle unrep req store) = dom store \<union> registered [req]"
  by (cases req) (auto simp: processReceipt_def getPoints_def split: option.splits sum.splits)

lemma registered_Cons: "registered (req # reqs) = registered [req] \<union> registered reqs"
  by (induction "req # reqs" rule: registered.induct) auto

lemma dom_fold_handle:
  "dom (fold (handle unrep) requests store) = dom store \<union> registered requests"
proof (induction requests arbitrary: store)
  case Nil
  show ?case by simp
next
  case (Cons req requests)
  show ?case
    using Cons.IH [of "handle unrep req store"] dom_handle [of unrep req store]
      registered_Cons [of req requests]
    by auto
qed

lemma getPoints_store: "fst (getPoints unrep ident store) = store"
  by (simp add: getPoints_def split: option.splits sum.splits)

text \<open>
  C8: for every receipt and every store, processReceipt followed by the lookup of
  getPoints under the identifier that processReceipt returned finds exactly the
  registered receipt: the response is the identifier, the store holds the receipt
  under it, and getPoints answers with the points of that receipt (or with its
  panic), never with "not found".
\<close>

theorem register_then_lookup:
  assumes "processReceipt (Some receipt) ident store = (store', response)"
  shows "response = ReceiptResponse ident \<and> store' ident = Some receipt \<and>
         getPoints unrep ident store' =
           (store', case calculatePoints unrep receipt of
                      Inl p \<Rightarrow> Panicked p | Inr points \<Rightarrow> PointsResponse points) \<and>
         snd (getPoints unrep ident store') \<noteq> StatusNotFound"
  using assms by (auto simp: processReceipt_def getPoints_def split: sum.splits)

theorem register_then_lookup_witness:
  "processReceipt (Some scenarioA) ''id-1'' Map.empty =
     ([''id-1'' \<mapsto> scenarioA], ReceiptResponse ''id-1'') \<and>
   [''id-1'' \<mapsto> scenarioA] ''id-1'' = Some scenarioA \<and>
   snd (getPoints unrep_amd64 ''id-1'' [''id-1'' \<mapsto> scenarioA]) \<noteq> StatusNotFound"
proof -
  have h: "processReceipt (Some scenarioA) ''id-1'' Map.empty =
     ([''id-1'' \<mapsto> scenarioA], ReceiptResponse ''id-1'')"
    by (simp add: processReceipt_def)
  show ?thesis
    using register_then_lookup [OF h, of unrep_amd64] h by blast
qed

text \<open>
  C9: in every run of the process, getPoints for an identifier that no request of
  the run registered a receipt under answers "not found" and leaves the store as it
  was, so that the same request gives the same answer again.
\<close>

theorem lookup_unregistered:
  assumes "ident \<notin> registered requests"
  shows "getPoints unrep ident (run unrep requests) = (run unrep requests, StatusNotFound) \<and>
         run unrep (requests @ [GET_points ident]) = run unrep requests"
proof -
  have "ident \<notin> dom (run unrep requests)"
    using assms by (simp add: run_def dom_fold_handle)
  then have "run unrep requests ident = None" by blast
  then show ?thesis
    by (simp add: getPoints_def run_def)
qed

theorem lookup_unregistered_witness:
  "''id-2'' \<notin> registered [POST_process (Some scenarioA) ''id-1'', GET_points ''id-1''] \<and>
   getPoints unrep_amd64 ''id-2''
      (run unrep_amd64 [POST_process (Some scenarioA) ''id-1'', GET_points ''id-1'']) =
     (run unrep_amd64 [POST_process (Some scenarioA) ''id-1'', GET_points ''id-1''],
      StatusNotFound)"
proof -
  have h: "''id-2'' \<notin> registered [POST_process (Some scenarioA) ''id-1'', GET_points ''id-1'']"
    by simp
  show ?thesis using lookup_unregistered [OF h, of unrep_amd64] h by simp
qed

text \<open>
  C10: processReceipt changes the store at the generated identifier only (every
  other identifier maps to what it mapped to before, and a request that fails to
  bind changes nothing), and getPoints does not change the store.
\<close>

theorem register_frame:
  "(ident' \<noteq> ident \<longrightarrow> fst (processReceipt bound ident store) ident' = store ident') \<and>
   fst (processReceipt None ident store) = store \<and>
   fst (getPoints unrep ident' store) = store"
  by (simp add: processReceipt_def getPoints_store split: option.splits)

theorem register_frame_witness:
  "''id-2'' \<noteq> ''id-1'' \<and>
   fst (processReceipt (Some scenarioA) ''id-1'' [''id-2'' \<mapsto> scenarioA]) ''id-2'' =
     Some scenarioA"
  using register_frame [of "''id-2''" "''id-1''" "Some scenarioA" "[''id-2'' \<mapsto> scenarioA]"]
  by simp

section \<open>The scoring rules\<close>

text \<open>
  C5: the receipt of scenario A (retailer "Target", date 2022-01-01, time 13:01,
  total "1.25", one item "Pepsi - 12-oz" at "1.25") scores exactly 37 points: 6 from
  the retailer name, 25 from the quarter-multiple rule, 6 from the odd day, and
  nothing from the other four rules.
\<close>

theorem scenario_A_points:
  "calculatePoints unrep scenarioA = Inr 37 \<and>
   retailerRule scenarioA p = p + 6 \<and>
   roundDollarRule scenarioA p = p \<and>
   quarterRule scenarioA p = p + 25 \<and>
   itemCountRule scenarioA p = p \<and>
   descriptionRule unrep scenarioA p = p \<and>
   oddDayRule scenarioA p = Inr (p + 6) \<and>
   afternoonRule scenarioA p = p"
proof -
  have "calculatePoints unrep scenarioA = Inr 37" by code_simp
  moreover have "len (FindAllString_alnum (Retailer scenarioA)) = 6" by code_simp
  then have "retailerRule scenarioA p = p + 6" by (simp add: retailerRule_def)
  moreover have "\<not> HasSuffix (Total scenarioA) ''.00''" by code_simp
  then have "roundDollarRule scenarioA p = p" by (simp add: roundDollarRule_def)
  moreover have "go_rem (fst (Atoi (ReplaceAll (Total scenarioA) CHR ''.'' []))) 25 = 0"
    by code_simp
  then have "quarterRule scenarioA p = p + 25" by (simp add: quarterRule_def)
  moreover have "go_quo (len (Items scenarioA)) 2 * 5 = 0" by code_simp
  then have "itemCountRule scenarioA p = p" by (simp add: itemCountRule_def)
  moreover have "descriptionRule unrep scenarioA p = p"
  proof -
    have "go_rem (len (TrimSpace ''Pepsi - 12-oz'')) 3 \<noteq> 0" by code_simp
    then show ?thesis by (simp add: descriptionRule_def itemRule_def scenarioA_def)
  qed
  moreover have "oddDayRule scenarioA p = Inr (p + 6)"
  proof -
    have "Split (PurchaseDate scenarioA) CHR ''-'' = [''2022'', ''01'', ''01'']" by code_simp
    moreover have "Atoi ''01'' = (1, None)" by code_simp
    moreover have "go_rem 1 2 = 1" by code_simp
    ultimately show ?thesis by (simp add: oddDayRule_def)
  qed
  moreover have "afternoonRule scenarioA p = p"
  proof -
    have "Parse_15_04 (PurchaseTime scenarioA) = Some (13, 1)" by code_simp
    then show ?thesis by (simp add: afternoonRule_def)
  qed
  ultimately show ?thesis by blast
qed

lemma isDigit_not_dash: "isDigit c \<Longrightarrow> c \<noteq> CHR ''-''"
  by (auto simp: isDigit_def)

lemma validDate_Split: "validDate s \<Longrightarrow> length (Split s CHR ''-'') = 3"
proof -
  assume v: "validDate s"
  then have "length s = 10" by (simp add: validDate_def)
  then obtain a b c d e f g h i j where s: "s = [a, b, c, d, e, f, g, h, i, j]"
    by (auto simp: eval_nat_numeral length_Suc_conv)
  from v show ?thesis
    unfolding s validDate_def digits_def
    by (auto simp: eval_nat_numeral dest: isDigit_not_dash)
qed

lemma calculatePoints_panics:
  "isl (calculatePoints unrep receipt) \<longleftrightarrow> length (Split (PurchaseDate receipt) CHR ''-'') \<le> 2"
  by (simp add: calculatePoints_def oddDayRule_def Let_def split: sum.splits prod.splits option.splits)

text \<open>
  C6: on every valid receipt (fields as the data model has them) calculatePoints
  returns points: it does not panic, and in particular \<open>dateParts[2]\<close> exists.
\<close>

theorem valid_receipt_total:
  assumes "validReceipt receipt"
  shows "\<exists>points. calculatePoints unrep receipt = Inr points"
proof -
  have "length (Split (PurchaseDate receipt) CHR ''-'') = 3"
    using assms by (simp add: validReceipt_def validDate_Split)
  then have "\<not> isl (calculatePoints unrep receipt)"
    by (simp add: calculatePoints_panics)
  then show ?thesis by (cases "calculatePoints unrep receipt") auto
qed

theorem valid_receipt_total_witness:
  "validReceipt scenarioA \<and> (\<exists>points. calculatePoints unrep_amd64 scenarioA = Inr points)"
proof -
  have h: "validReceipt scenarioA" by code_simp
  show ?thesis using valid_receipt_total [OF h] h by blast
qed

lemma digitVal_range: "isDigit c \<Longrightarrow> 0 \<le> digitVal c \<and> digitVal c \<le> 9"
proof -
  assume "isDigit c"
  then have "48 \<le> int (of_char c) \<and> int (of_char c) \<le> 57"
    by (simp add: isDigit_def)
  then show ?thesis
    by (simp add: digitVal_def of_nat_of_char)
qed

lemma getnum_nonneg: "getnum s fixed = Some (n, rest) \<Longrightarrow> 0 \<le> n"
proof (induction s fixed rule: getnum.induct)
  case (3 c d s fixed)
  then show ?case
    using digitVal_range [of c] digitVal_range [of d] by (auto split: if_splits)
qed (auto split: if_splits dest: digitVal_range)

lemma Parse_15_04_range:
  assumes "Parse_15_04 v = Some (hour, minute)"
  shows "0 \<le> hour \<and> hour < 24 \<and> 0 \<le> minute \<and> minute < 60"
  using assms
  apply (auto simp: Parse_15_04_def split: option.splits if_splits list.splits)
   apply (erule getnum_nonneg)
  apply (erule getnum_nonneg)
  done

lemma afternoon_test:
  assumes "Parse_15_04 v = Some (hour, minute)"
  shows "((hour = 14 \<and> minute > 0) \<or> hour = 15) \<longleftrightarrow>
         (14 * 60 < hour * 60 + minute \<and> hour * 60 + minute < 16 * 60)"
proof -
  have "0 \<le> hour \<and> hour < 24 \<and> 0 \<le> minute \<and> minute < 60"
    using assms by (rule Parse_15_04_range)
  then show ?thesis by presburger
qed

text \<open>
  C3: when the purchase time of a receipt parses to \<open>hour:minute\<close>, calculatePoints
  returns what the six other rules give for the receipt, with 10 points added exactly
  when the time is strictly after 14:00 and strictly before 16:00, and nothing added
  otherwise (the afternoon block is the last of the seven, and it adds just that).
  At the boundaries, for every receipt: the time 14:00 adds nothing and 14:01 adds
  10, so the receipt scores 10 more at 14:01 than at 14:00; 15:59 adds 10 and 16:00
  nothing, so it scores 10 more at 15:59 than at 16:00. Scenario A, which scores 37
  at its own time 13:01, scores 37 at 14:00, 47 at 14:01, 47 at 15:59 and 37 at 16:00.
\<close>

theorem afternoon_window:
  "(Parse_15_04 (PurchaseTime receipt) = Some (hour, minute) \<longrightarrow>
      afternoonRule receipt points =
        (if 14 * 60 < hour * 60 + minute \<and> hour * 60 + minute < 16 * 60
         then points + 10 else points) \<and>
      calculatePoints unrep receipt =
        (case oddDayRule receipt (descriptionRule unrep receipt (itemCountRule receipt
                (quarterRule receipt (roundDollarRule receipt (retailerRule receipt 0))))) of
           Inl p \<Rightarrow> Inl p
         | Inr q \<Rightarrow>
             Inr (if 14 * 60 < hour * 60 + minute \<and> hour * 60 + minute < 16 * 60
                  then q + 10 else q))) \<and>
   afternoonRule (receipt\<lparr>PurchaseTime := ''14:00''\<rparr>) points = points \<and>
   afternoonRule (receipt\<lparr>PurchaseTime := ''14:01''\<rparr>) points = points + 10 \<and>
   afternoonRule (receipt\<lparr>PurchaseTime := ''15:59''\<rparr>) points = points + 10 \<and>
   afternoonRule (receipt\<lparr>PurchaseTime := ''16:00''\<rparr>) points = points \<and>
   calculatePoints unrep (receipt\<lparr>PurchaseTime := ''14:01''\<rparr>) =
     (case calculatePoints unrep (receipt\<lparr>PurchaseTime := ''14:00''\<rparr>) of
        Inl p \<Rightarrow> Inl p | Inr q \<Rightarrow> Inr (q + 10)) \<and>
   calculatePoints unrep (receipt\<lparr>PurchaseTime := ''15:59''\<rparr>) =
     (case calculatePoints unrep (receipt\<lparr>PurchaseTime := ''16:00''\<rparr>) of
        Inl p \<Rightarrow> Inl p | Inr q \<Rightarrow> Inr (q + 10)) \<and>
   calculatePoints unrep (scenarioA\<lparr>PurchaseTime := ''14:00''\<rparr>) = Inr 37 \<and>
   calculatePoints unrep (scenarioA\<lparr>PurchaseTime := ''14:01''\<rparr>) = Inr 47 \<and>
   calculatePoints unrep (scenarioA\<lparr>PurchaseTime := ''15:59''\<rparr>) = Inr 47 \<and>
   calculatePoints unrep (scenarioA\<lparr>PurchaseTime := ''16:00''\<rparr>) = Inr 37"
proof -
  have a: "afternoonRule receipt q =
        (if 14 * 60 < hour * 60 + minute \<and> hour * 60 + minute < 16 * 60
         then q + 10 else q)"
    if p: "Parse_15_04 (PurchaseTime receipt) = Some (hour, minute)" for q
    using afternoon_test [OF p] by (simp add: afternoonRule_def p)
  have c: "calculatePoints unrep receipt =
        (case oddDayRule receipt (descriptionRule unrep receipt (itemCountRule receipt
                (quarterRule receipt (roundDollarRule receipt (retailerRule receipt 0))))) of
           Inl p \<Rightarrow> Inl p
         | Inr q \<Rightarrow>
             Inr (if 14 * 60 < hour * 60 + minute \<and> hour * 60 + minute < 16 * 60
                  then q + 10 else q))"
    if p: "Parse_15_04 (PurchaseTime receipt) = Some (hour, minute)"
    by (simp add: calculatePoints_def Let_def a [OF p] split: sum.splits)
  have b: "Parse_15_04 ''14:00'' = Some (14, 0)" "Parse_15_04 ''14:01'' = Some (14, 1)"
    "Parse_15_04 ''15:59'' = Some (15, 59)" "Parse_15_04 ''16:00'' = Some (16, 0)"
    by code_simp+
  have r: "afternoonRule (receipt\<lparr>PurchaseTime := ''14:00''\<rparr>) q = q"
    "afternoonRule (receipt\<lparr>PurchaseTime := ''14:01''\<rparr>) q = q + 10"
    "afternoonRule (receipt\<lparr>PurchaseTime := ''15:59''\<rparr>) q = q + 10"
    "afternoonRule (receipt\<lparr>PurchaseTime := ''16:00''\<rparr>) q = q" for q
    by (simp_all add: afternoonRule_def b)
  have others: "oddDayRule (receipt\<lparr>PurchaseTime := t\<rparr>)
        (descriptionRule unrep (receipt\<lparr>PurchaseTime := t\<rparr>)
          (itemCountRule (receipt\<lparr>PurchaseTime := t\<rparr>)
            (quarterRule (receipt\<lparr>PurchaseTime := t\<rparr>)
              (roundDollarRule (receipt\<lparr>PurchaseTime := t\<rparr>)
                (retailerRule (receipt\<lparr>PurchaseTime := t\<rparr>) 0))))) =
      oddDayRule receipt (descriptionRule unrep receipt (itemCountRule receipt
                (quarterRule receipt (roundDollarRule receipt (retailerRule receipt 0)))))" for t
    by (simp add: oddDayRule_def descriptionRule_def itemCountRule_def quarterRule_def
        roundDollarRule_def retailerRule_def)
  have g1: "calculatePoints unrep (receipt\<lparr>PurchaseTime := ''14:01''\<rparr>) =
     (case calculatePoints unrep (receipt\<lparr>PurchaseTime := ''14:00''\<rparr>) of
        Inl p \<Rightarrow> Inl p | Inr q \<Rightarrow> Inr (q + 10))"
    by (simp add: calculatePoints_def Let_def others r split: sum.splits)
  have g2: "calculatePoints unrep (receipt\<lparr>PurchaseTime := ''15:59''\<rparr>) =
     (case calculatePoints unrep (receipt\<lparr>PurchaseTime := ''16:00''\<rparr>) of
        Inl p \<Rightarrow> Inl p | Inr q \<Rightarrow> Inr (q + 10))"
    by (simp add: calculatePoints_def Let_def others r split: sum.splits)
  have s: "calculatePoints unrep (scenarioA\<lparr>PurchaseTime := ''14:00''\<rparr>) = Inr 37"
    "calculatePoints unrep (scenarioA\<lparr>PurchaseTime := ''14:01''\<rparr>) = Inr 47"
    "calculatePoints unrep (scenarioA\<lparr>PurchaseTime := ''15:59''\<rparr>) = Inr 47"
    "calculatePoints unrep (scenarioA\<lparr>PurchaseTime := ''16:00''\<rparr>) = Inr 37"
    by code_simp+
  show ?thesis using a c by (simp only: r g1 g2 s simp_thms) blast
qed

theorem afternoon_window_witness:
  "Parse_15_04 (PurchaseTime (scenarioA\<lparr>PurchaseTime := ''15:30''\<rparr>)) = Some (15, 30) \<and>
   afternoonRule (scenarioA\<lparr>PurchaseTime := ''15:30''\<rparr>) 0 = 10 \<and>
   calculatePoints unrep_amd64 (scenarioA\<lparr>PurchaseTime := ''15:30''\<rparr>) = Inr 47"
proof -
  have h: "Parse_15_04 (PurchaseTime (scenarioA\<lparr>PurchaseTime := ''15:30''\<rparr>)) = Some (15, 30)"
    by code_simp
  have o: "oddDayRule (scenarioA\<lparr>PurchaseTime := ''15:30''\<rparr>)
      (descriptionRule unrep_amd64 (scenarioA\<lparr>PurchaseTime := ''15:30''\<rparr>)
        (itemCountRule (scenarioA\<lparr>PurchaseTime := ''15:30''\<rparr>)
          (quarterRule (scenarioA\<lparr>PurchaseTime := ''15:30''\<rparr>)
            (roundDollarRule (scenarioA\<lparr>PurchaseTime := ''15:30''\<rparr>)
              (retailerRule (scenarioA\<lparr>PurchaseTime := ''15:30''\<rparr>) 0))))) = Inr 37"
    by code_simp
  show ?thesis
    using afternoon_window [of "scenarioA\<lparr>PurchaseTime := ''15:30''\<rparr>" 15 30 0 unrep_amd64] h
    by (simp add: o)
qed

text \<open>
  Each block after the first adds to the points so far an amount that does not
  depend on them, so points added before a block come out of calculatePoints
  unchanged.
\<close>

lemma itemCountRule_add: "itemCountRule receipt (p + k) = itemCountRule receipt p + k"
  by (simp add: itemCountRule_def Let_def)

lemma itemRule_add: "itemRule unrep item (p + k) = itemRule unrep item p + k"
  by (simp add: itemRule_def Let_def)

lemma fold_itemRule_add:
  "fold (itemRule unrep) items (p + k) = fold (itemRule unrep) items p + k"
  by (induction items arbitrary: p) (simp_all add: itemRule_add)

lemma descriptionRule_add:
  "descriptionRule unrep receipt (p + k) = descriptionRule unrep receipt p + k"
  by (simp add: descriptionRule_def fold_itemRule_add)

lemma oddDayRule_add:
  "oddDayRule receipt (p + k) =
     (case oddDayRule receipt p of Inl e \<Rightarrow> Inl e | Inr q \<Rightarrow> Inr (q + k))"
  by (simp add: oddDayRule_def Let_def split: prod.splits option.splits)

lemma afternoonRule_add: "afternoonRule receipt (p + k) = afternoonRule receipt p + k"
  by (simp add: afternoonRule_def split: option.splits)

lemma calculatePoints_add:
  "(case oddDayRule receipt (descriptionRule unrep receipt (itemCountRule receipt (p + k))) of
      Inl e \<Rightarrow> Inl e | Inr q \<Rightarrow> Inr (afternoonRule receipt q)) =
   (case (case oddDayRule receipt (descriptionRule unrep receipt (itemCountRule receipt p)) of
            Inl e \<Rightarrow> Inl e | Inr q \<Rightarrow> Inr (afternoonRule receipt q)) of
      Inl e \<Rightarrow> Inl e | Inr q \<Rightarrow> Inr (q + k))"
  by (simp add: itemCountRule_add descriptionRule_add oddDayRule_add afternoonRule_add
      split: sum.splits)

lemma quarter_100: "go_rem (fst (Atoi (ReplaceAll ''100.00'' CHR ''.'' []))) 25 = 0"
  by code_simp

lemma quarter_cent: "go_rem (fst (Atoi (ReplaceAll ''0.01'' CHR ''.'' []))) 25 \<noteq> 0"
  by code_simp

text \<open>
  C2 as stated fails in its sum: with the total "100.00" both rules fire, for 50 and
  25 points, which is 75 and not 100. Scenario A scores 12 with the total "0.01", on
  which neither rule fires; with the total "100.00" it does not score 12 + 100.
\<close>

theorem round_dollar_and_quarter_counterexample:
  "quarterRule receipt100 (roundDollarRule receipt100 0) \<noteq> 0 + 100 \<and>
   calculatePoints unrep_amd64 (receipt100\<lparr>Total := ''0.01''\<rparr>) = Inr 12 \<and>
   calculatePoints unrep_amd64 receipt100 \<noteq> Inr (12 + 100)"
  by code_simp

text \<open>
  C2, amended: for every receipt whose total is "100.00" the round-dollar block adds
  50 and the quarter-multiple block adds 25 in the same call of calculatePoints, 75
  points from the two rules together: calculatePoints returns what the five other
  rules give when the points are 50 + 25 more after the retailer block, which is 75
  more than it returns for the same receipt with the total "0.01", on which neither
  of the two rules fires.
\<close>

theorem round_dollar_and_quarter:
  assumes "Total receipt = ''100.00''"
  shows "roundDollarRule receipt points = points + 50 \<and>
         quarterRule receipt points = points + 25 \<and>
         quarterRule receipt (roundDollarRule receipt points) = points + 75 \<and>
         calculatePoints unrep receipt =
           (case oddDayRule receipt (descriptionRule unrep receipt
                   (itemCountRule receipt (retailerRule receipt 0 + 50 + 25))) of
              Inl p \<Rightarrow> Inl p
            | Inr q \<Rightarrow> Inr (afternoonRule receipt q)) \<and>
         roundDollarRule (receipt\<lparr>Total := ''0.01''\<rparr>) points = points \<and>
         quarterRule (receipt\<lparr>Total := ''0.01''\<rparr>) points = points \<and>
         calculatePoints unrep receipt =
           (case calculatePoints unrep (receipt\<lparr>Total := ''0.01''\<rparr>) of
              Inl p \<Rightarrow> Inl p
            | Inr q \<Rightarrow> Inr (q + 75))"
proof -
  have r: "roundDollarRule receipt q = q + 50" "quarterRule receipt q = q + 25" for q
    using assms quarter_100 by (simp_all add: roundDollarRule_def quarterRule_def HasSuffix_def)
  have z: "roundDollarRule (receipt\<lparr>Total := ''0.01''\<rparr>) q = q"
    "quarterRule (receipt\<lparr>Total := ''0.01''\<rparr>) q = q" for q
    using quarter_cent by (simp_all add: roundDollarRule_def quarterRule_def HasSuffix_def)
  have c: "calculatePoints unrep receipt =
           (case oddDayRule receipt (descriptionRule unrep receipt
                   (itemCountRule receipt (retailerRule receipt 0 + 50 + 25))) of
              Inl p \<Rightarrow> Inl p
            | Inr q \<Rightarrow> Inr (afternoonRule receipt q))"
    by (simp add: calculatePoints_def Let_def r)
  have others: "oddDayRule (receipt\<lparr>Total := t\<rparr>) = oddDayRule receipt"
    "descriptionRule unrep (receipt\<lparr>Total := t\<rparr>) = descriptionRule unrep receipt"
    "itemCountRule (receipt\<lparr>Total := t\<rparr>) = itemCountRule receipt"
    "retailerRule (receipt\<lparr>Total := t\<rparr>) = retailerRule receipt"
    "afternoonRule (receipt\<lparr>Total := t\<rparr>) = afternoonRule receipt" for t
    by (simp_all add: fun_eq_iff oddDayRule_def descriptionRule_def itemCountRule_def
        retailerRule_def afternoonRule_def)
  have b: "calculatePoints unrep (receipt\<lparr>Total := ''0.01''\<rparr>) =
           (case oddDayRule receipt (descriptionRule unrep receipt
                   (itemCountRule receipt (retailerRule receipt 0))) of
              Inl p \<Rightarrow> Inl p
            | Inr q \<Rightarrow> Inr (afternoonRule receipt q))"
    by (simp add: calculatePoints_def Let_def z others cong: sum.case_cong)
  have "retailerRule receipt 0 + 50 + 25 = retailerRule receipt 0 + 75" by simp
  then have d: "calculatePoints unrep receipt =
           (case calculatePoints unrep (receipt\<lparr>Total := ''0.01''\<rparr>) of
              Inl p \<Rightarrow> Inl p
            | Inr q \<Rightarrow> Inr (q + 75))"
    unfolding b c by (simp only: calculatePoints_add)
  have e: "quarterRule receipt (roundDollarRule receipt points) = points + 75"
    by (simp add: r)
  show ?thesis using r z c d e by blast
qed

theorem round_dollar_and_quarter_witness:
  "Total receipt100 = ''100.00'' \<and>
   quarterRule receipt100 (roundDollarRule receipt100 0) = 0 + 75 \<and>
   calculatePoints unrep_amd64 receipt100 = Inr (12 + 75)"
proof -
  have h: "Total receipt100 = ''100.00''" by (simp add: receipt100_def scenarioA_def)
  have b: "calculatePoints unrep_amd64 (receipt100\<lparr>Total := ''0.01''\<rparr>) = Inr 12" by code_simp
  note t = round_dollar_and_quarter [OF h, of 0 unrep_amd64]
  have "calculatePoints unrep_amd64 receipt100 =
      (case calculatePoints unrep_amd64 (receipt100\<lparr>Total := ''0.01''\<rparr>) of
         Inl p \<Rightarrow> Inl p | Inr q \<Rightarrow> Inr (q + 75))"
    using t by blast
  then have c: "calculatePoints unrep_amd64 receipt100 = Inr (12 + 75)"
    unfolding b by simp
  have "quarterRule receipt100 (roundDollarRule receipt100 0) = 0 + 75"
    using t by blast
  then show ?thesis using h c by blast
qed

lemma float64_one_fifth: "float64_round 1 5 = Finite 7205759403792794 (- 55)"
  by code_simp

lemma ParseFloat_syntax_error:
  "snd (ParseFloat s) = Some ErrSyntax \<Longrightarrow> fst (ParseFloat s) = Finite 0 0"
  by (auto simp: ParseFloat_def Let_def split: option.splits prod.splits if_splits float64.splits)

lemma float64_round_zero: "float64_round 0 den = Finite 0 0"
  by (simp add: float64_round_def)

lemma float64_of_binary_zero: "float64_of_binary 0 e = Finite 0 0"
  by (simp add: float64_of_binary_def float64_round_zero)

lemma zero_price_points:
  "float64_to_int unrep (Ceil (float64_mul (Finite 0 0) (float64_round 1 5))) = 0"
  by (simp add: float64_one_fifth float64_of_binary_zero float64_trunc_def)

lemma itemRule_syntax_error:
  "snd (ParseFloat (Price item)) = Some ErrSyntax \<Longrightarrow> itemRule unrep item points = points"
  by (simp add: itemRule_def Let_def ParseFloat_syntax_error zero_price_points)

lemma fold_itemRule_filter:
  "fold (itemRule unrep) (filter (\<lambda>item. snd (ParseFloat (Price item)) \<noteq> Some ErrSyntax) items)
     points = fold (itemRule unrep) items points"
  by (induction items arbitrary: points) (auto simp: itemRule_syntax_error)

section \<open>Rounding to float64\<close>

text \<open>
  The value of \<open>Finite m e\<close> is the real number \<open>m * 2 powr e\<close>. The lemmas of this
  section bound the error of \<open>float64_round\<close> and identify the cases where it is exact.
\<close>

lemma two_power_nat: "0 \<le> e \<Longrightarrow> (2::real) ^ nat e = 2 powr real_of_int e"
  using powr_realpow [of 2 "nat e"] by simp

lemma bitlen_pos: "0 < a \<Longrightarrow> 1 \<le> bitlen a"
proof (induction a rule: bitlen.induct)
  case (1 a)
  have "0 \<le> bitlen (a div 2)"
  proof (cases "a div 2 \<le> 0")
    case True
    then show ?thesis by (simp add: bitlen.simps [of "a div 2"])
  next
    case False
    then show ?thesis using 1 by simp
  qed
  then show ?case using 1 by (simp add: bitlen.simps [of a])
qed

lemma bitlen_bounds: "0 < a \<Longrightarrow> 2 ^ nat (bitlen a - 1) \<le> a \<and> a < 2 ^ nat (bitlen a)"
proof (induction a rule: bitlen.induct)
  case (1 a)
  show ?case
  proof (cases "a = 1")
    case True
    have "bitlen 1 = 1" by (simp add: bitlen.simps [of 1] bitlen.simps [of 0])
    then show ?thesis using True by simp
  next
    case False
    then have pos: "0 < a div 2" using 1 by simp
    define b where "b = bitlen (a div 2)"
    have b1: "1 \<le> b" using pos by (simp add: b_def bitlen_pos)
    have ih: "2 ^ nat (b - 1) \<le> a div 2 \<and> a div 2 < 2 ^ nat b"
      using 1 pos by (simp add: b_def)
    have ba: "bitlen a = 1 + b" using 1 by (simp add: bitlen.simps [of a] b_def)
    have "nat b = Suc (nat (b - 1))" using b1 by simp
    then have p: "(2::int) ^ nat b = 2 * 2 ^ nat (b - 1)" by simp
    have "nat (1 + b) = Suc (nat b)" using b1 by simp
    then have p2: "(2::int) ^ nat (1 + b) = 2 * 2 ^ nat b" by simp
    have "(2::int) ^ nat b \<le> a" using ih p by linarith
    moreover have "a < 2 ^ nat (1 + b)" using ih p2 by linarith
    ultimately show ?thesis using ba by simp
  qed
qed

lemma bitlen_bounds_real:
  assumes "0 < a"
  shows "2 powr (real_of_int (bitlen a) - 1) \<le> real_of_int a"
    and "real_of_int a < 2 powr real_of_int (bitlen a)"
proof -
  have b: "1 \<le> bitlen a" using assms by (rule bitlen_pos)
  have "real_of_int (2 ^ nat (bitlen a - 1)) \<le> real_of_int a"
    using bitlen_bounds [OF assms] by linarith
  then show "2 powr (real_of_int (bitlen a) - 1) \<le> real_of_int a"
    using two_power_nat [of "bitlen a - 1"] b by simp
  have "real_of_int a < real_of_int (2 ^ nat (bitlen a))"
    using bitlen_bounds [OF assms] by linarith
  then show "real_of_int a < 2 powr real_of_int (bitlen a)"
    using two_power_nat [of "bitlen a"] b by simp
qed

lemma ilog2_test:
  assumes "0 < a" "0 < d"
  shows "d * 2 ^ nat k \<le> a * 2 ^ nat (- k) \<longleftrightarrow>
         2 powr real_of_int k \<le> real_of_int a / real_of_int d"
proof (cases "0 \<le> k")
  case True
  then have "d * 2 ^ nat k \<le> a * 2 ^ nat (- k) \<longleftrightarrow> d * 2 ^ nat k \<le> a" by simp
  also have "\<dots> \<longleftrightarrow> real_of_int d * 2 ^ nat k \<le> real_of_int a"
    by (metis of_int_le_iff of_int_mult of_int_numeral of_int_power)
  also have "\<dots> \<longleftrightarrow> real_of_int d * 2 powr real_of_int k \<le> real_of_int a"
    using True by (simp add: two_power_nat)
  also have "\<dots> \<longleftrightarrow> 2 powr real_of_int k \<le> real_of_int a / real_of_int d"
    using assms by (simp add: field_simps)
  finally show ?thesis .
next
  case False
  then have "d * 2 ^ nat k \<le> a * 2 ^ nat (- k) \<longleftrightarrow> d \<le> a * 2 ^ nat (- k)" by simp
  also have "\<dots> \<longleftrightarrow> real_of_int d \<le> real_of_int a * 2 ^ nat (- k)"
    by (metis of_int_le_iff of_int_mult of_int_numeral of_int_power)
  also have "\<dots> \<longleftrightarrow> real_of_int d \<le> real_of_int a * 2 powr real_of_int (- k)"
    using False by (simp add: two_power_nat)
  also have "\<dots> \<longleftrightarrow> 2 powr real_of_int k \<le> real_of_int a / real_of_int d"
    using assms by (simp add: field_simps powr_minus)
  finally show ?thesis .
qed

lemma ilog2_bounds:
  assumes "0 < a" "0 < d"
  shows "2 powr real_of_int (ilog2 a d) \<le> real_of_int a / real_of_int d"
    and "real_of_int a / real_of_int d < 2 powr (real_of_int (ilog2 a d) + 1)"
proof -
  define k where "k = bitlen a - bitlen d"
  define q where "q = real_of_int a / real_of_int d"
  have a: "2 powr (real_of_int (bitlen a) - 1) \<le> real_of_int a"
    "real_of_int a < 2 powr real_of_int (bitlen a)"
    using bitlen_bounds_real [OF assms(1)] by auto
  have d: "2 powr (real_of_int (bitlen d) - 1) \<le> real_of_int d"
    "real_of_int d < 2 powr real_of_int (bitlen d)"
    using bitlen_bounds_real [OF assms(2)] by auto
  have dpos: "0 < real_of_int d" using assms by simp
  have apos: "0 < real_of_int a" using assms by simp
  have up: "q < 2 powr (real_of_int k + 1)"
  proof -
    have "q < 2 powr real_of_int (bitlen a) / real_of_int d"
      unfolding q_def using a(2) dpos by (simp add: divide_strict_right_mono)
    also have "\<dots> \<le> 2 powr real_of_int (bitlen a) / 2 powr (real_of_int (bitlen d) - 1)"
      using d(1) by (simp add: frac_le)
    also have "\<dots> = 2 powr (real_of_int k + 1)"
      by (simp add: k_def powr_diff [symmetric] algebra_simps)
    finally show ?thesis .
  qed
  have lo: "2 powr (real_of_int k - 1) \<le> q"
  proof -
    have "2 powr (real_of_int k - 1) =
        2 powr (real_of_int (bitlen a) - 1) / 2 powr real_of_int (bitlen d)"
      by (simp add: k_def powr_diff [symmetric] algebra_simps)
    also have "\<dots> \<le> real_of_int a / 2 powr real_of_int (bitlen d)"
      using a(1) by (simp add: divide_right_mono)
    also have "\<dots> \<le> real_of_int a / real_of_int d"
      using d(2) dpos apos by (simp add: frac_le)
    finally show ?thesis by (simp add: q_def)
  qed
  have t: "d * 2 ^ nat k \<le> a * 2 ^ nat (- k) \<longleftrightarrow> 2 powr real_of_int k \<le> q"
    unfolding q_def by (rule ilog2_test [OF assms])
  show "2 powr real_of_int (ilog2 a d) \<le> real_of_int a / real_of_int d"
    using lo t by (auto simp: ilog2_def Let_def k_def [symmetric] q_def [symmetric])
  show "real_of_int a / real_of_int d < 2 powr (real_of_int (ilog2 a d) + 1)"
    using up t by (auto simp: ilog2_def Let_def k_def [symmetric] q_def [symmetric])
qed

lemma round_half_even_error:
  assumes "0 < d"
  shows "\<bar>real_of_int (round_half_even n d) - real_of_int n / real_of_int d\<bar> \<le> 1 / 2"
proof -
  define q where "q = n div d"
  define r where "r = n mod d"
  have n: "n = q * d + r" by (simp add: q_def r_def)
  have r: "0 \<le> r" "r < d" using assms by (simp_all add: r_def)
  have dr: "0 < real_of_int d" using assms by simp
  have split: "real_of_int n / real_of_int d = real_of_int q + real_of_int r / real_of_int d"
    using dr by (simp add: n field_simps)
  have frac: "0 \<le> real_of_int r / real_of_int d" "real_of_int r / real_of_int d < 1"
    using r dr by simp_all
  consider "2 * r < d" | "2 * r > d" | "2 * r = d" by linarith
  then show ?thesis
  proof cases
    case 1
    then have "real_of_int (2 * r) < real_of_int d" by (simp only: of_int_less_iff)
    then have "real_of_int r / real_of_int d < 1 / 2"
      using dr by (simp add: field_simps)
    moreover have "round_half_even n d = q"
      using 1 by (simp add: round_half_even_def q_def [symmetric] r_def [symmetric] Let_def)
    ultimately show ?thesis using split frac by simp
  next
    case 2
    then have "real_of_int (2 * r) > real_of_int d" by (simp only: of_int_less_iff)
    then have "real_of_int r / real_of_int d > 1 / 2"
      using dr by (simp add: field_simps)
    moreover have "round_half_even n d = q + 1"
      using 2 by (simp add: round_half_even_def q_def [symmetric] r_def [symmetric] Let_def)
    ultimately show ?thesis using split frac by simp
  next
    case 3
    then have "real_of_int (2 * r) = real_of_int d" by (simp only: of_int_eq_iff)
    then have "real_of_int r / real_of_int d = 1 / 2"
      using dr by (simp add: field_simps)
    moreover have "round_half_even n d = q \<or> round_half_even n d = q + 1"
      using 3 by (simp add: round_half_even_def q_def [symmetric] r_def [symmetric] Let_def)
    ultimately show ?thesis using split by auto
  qed
qed

lemma round_half_even_unique:
  assumes "0 < d" "\<bar>real_of_int n / real_of_int d - real_of_int k\<bar> < 1 / 2"
  shows "round_half_even n d = k"
proof -
  have "\<bar>real_of_int (round_half_even n d) - real_of_int k\<bar> < 1"
    using round_half_even_error [OF assms(1), of n] assms(2) by linarith
  then have "\<bar>round_half_even n d - k\<bar> < 1"
    by (metis of_int_abs of_int_diff of_int_less_1_iff)
  then show ?thesis by linarith
qed

lemma scaled_ratio:
  assumes "0 < den"
  shows "real_of_int (num * 2 ^ nat (- e)) / real_of_int (den * 2 ^ nat e) =
         real_of_int num / real_of_int den * 2 powr (- real_of_int e)"
proof (cases "0 \<le> e")
  case True
  then have "real_of_int (num * 2 ^ nat (- e)) / real_of_int (den * 2 ^ nat e) =
      real_of_int num / (real_of_int den * 2 powr real_of_int e)"
    by (simp add: two_power_nat)
  then show ?thesis by (simp add: powr_minus field_simps)
next
  case False
  then have "real_of_int (num * 2 ^ nat (- e)) / real_of_int (den * 2 ^ nat e) =
      real_of_int num * 2 powr real_of_int (- e) / real_of_int den"
    using two_power_nat [of "- e"] by simp
  then show ?thesis by simp
qed

lemma two_powr_Suc: "2 powr (x + 1) = 2 * 2 powr (x::real)"
  by (simp add: powr_add)

lemma float64_round_unfold:
  assumes "0 < num" "max (ilog2 num den - 52) (- 1074) = e"
    "m = round_half_even (num * 2 ^ nat (- e)) (den * 2 ^ nat e)" "e \<le> 970"
  shows "float64_round num den = (if m = 2 ^ 53 then Finite (2 ^ 52) (e + 1) else Finite m e)"
  using assms by (simp add: float64_round_def Let_def)

text \<open>The rounding of a positive ratio whose binade is that of a normal number.\<close>

lemma float64_round_normal:
  assumes "0 < num" "0 < den" "L = ilog2 num den" "- 1022 \<le> L" "L \<le> 1022"
  shows "\<exists>m e. float64_round num den = Finite m e \<and>
           real_of_int m * 2 powr real_of_int e =
             real_of_int (round_half_even (num * 2 ^ nat (52 - L)) (den * 2 ^ nat (L - 52))) *
               2 powr (real_of_int L - 52)"
proof -
  define m where "m = round_half_even (num * 2 ^ nat (52 - L)) (den * 2 ^ nat (L - 52))"
  have e: "max (ilog2 num den - 52) (- 1074) = L - 52" using assms by simp
  have neg: "- (L - 52) = 52 - L" by simp
  have fr: "float64_round num den =
      (if m = 2 ^ 53 then Finite (2 ^ 52) (L - 52 + 1) else Finite m (L - 52))"
  proof (rule float64_round_unfold)
    show "0 < num" by fact
    show "max (ilog2 num den - 52) (- 1074) = L - 52" by (rule e)
    show "m = round_half_even (num * 2 ^ nat (- (L - 52))) (den * 2 ^ nat (L - 52))"
      by (simp only: m_def neg)
    show "L - 52 \<le> 970" using assms(5) by simp
  qed
  show ?thesis
  proof (cases "m = 2 ^ 53")
    case True
    have "float64_round num den = Finite (2 ^ 52) (L - 52 + 1)"
      using True by (simp only: fr refl if_True)
    moreover have "real_of_int (2 ^ 52) * 2 powr real_of_int (L - 52 + 1) =
        real_of_int m * 2 powr (real_of_int L - 52)"
      using True two_powr_Suc [of "real_of_int L - 52"] by simp
    ultimately show ?thesis unfolding m_def by blast
  next
    case False
    have "float64_round num den = Finite m (L - 52)"
      using False by (simp only: fr refl if_False)
    then show ?thesis unfolding m_def by auto
  qed
qed

lemma ilog2_range:
  assumes "0 < num" "0 < den"
    "2 powr (- 1022) \<le> real_of_int num / real_of_int den"
    "real_of_int num / real_of_int den < 2 powr 1023"
  shows "- 1022 \<le> ilog2 num den \<and> ilog2 num den \<le> 1022"
proof -
  have "2 powr real_of_int (ilog2 num den) < 2 powr 1023"
    using ilog2_bounds(1) [OF assms(1,2)] assms(4) by linarith
  then have "real_of_int (ilog2 num den) < 1023"
    by (rule powr_less_cancel) simp
  moreover have "2 powr (- 1022) < 2 powr (real_of_int (ilog2 num den) + 1)"
    using ilog2_bounds(2) [OF assms(1,2)] assms(3) by linarith
  then have "- 1022 < real_of_int (ilog2 num den) + 1"
    by (rule powr_less_cancel) simp
  ultimately show ?thesis by linarith
qed

lemma float64_round_rel_error:
  assumes "0 < num" "0 < den"
    "2 powr (- 1022) \<le> real_of_int num / real_of_int den"
    "real_of_int num / real_of_int den < 2 powr 1023"
  shows "\<exists>m e. float64_round num den = Finite m e \<and>
           \<bar>real_of_int m * 2 powr real_of_int e - real_of_int num / real_of_int den\<bar>
             \<le> real_of_int num / real_of_int den * 2 powr (- 53)"
proof -
  define L where "L = ilog2 num den"
  define q where "q = real_of_int num / real_of_int den"
  define N where "N = num * 2 ^ nat (52 - L)"
  define D where "D = den * 2 ^ nat (L - 52)"
  have range: "- 1022 \<le> L" "L \<le> 1022"
    using ilog2_range [OF assms] by (simp_all add: L_def)
  obtain m e where me: "float64_round num den = Finite m e"
    "real_of_int m * 2 powr real_of_int e =
       real_of_int (round_half_even N D) * 2 powr (real_of_int L - 52)"
    using float64_round_normal [OF assms(1,2) L_def range] unfolding N_def D_def by blast
  have D: "0 < D" using assms(2) by (simp add: D_def)
  have s: "real_of_int N / real_of_int D = q * 2 powr (52 - real_of_int L)"
    using scaled_ratio [OF assms(2), of num "L - 52"] by (simp add: N_def D_def q_def)
  have err: "\<bar>real_of_int (round_half_even N D) - q * 2 powr (52 - real_of_int L)\<bar> \<le> 1 / 2"
    using round_half_even_error [OF D, of N] s by simp
  have p: "2 powr (52 - real_of_int L) * 2 powr (real_of_int L - 52) = 1"
    by (simp add: powr_add [symmetric])
  have "real_of_int m * 2 powr real_of_int e - q =
      (real_of_int (round_half_even N D) - q * 2 powr (52 - real_of_int L)) *
        2 powr (real_of_int L - 52)"
    using p by (simp add: me(2) algebra_simps)
  then have "\<bar>real_of_int m * 2 powr real_of_int e - q\<bar> =
      \<bar>real_of_int (round_half_even N D) - q * 2 powr (52 - real_of_int L)\<bar> *
        2 powr (real_of_int L - 52)"
    by (simp add: abs_mult)
  also have "\<dots> \<le> 1 / 2 * 2 powr (real_of_int L - 52)"
    using err by (simp add: mult_right_mono)
  also have "\<dots> = 2 powr real_of_int L * 2 powr (- 53)"
    by (simp add: powr_diff powr_minus)
  also have "\<dots> \<le> q * 2 powr (- 53)"
  proof (rule mult_right_mono)
    show "2 powr real_of_int L \<le> q"
      using ilog2_bounds(1) [OF assms(1,2)] by (simp add: L_def q_def)
    show "0 \<le> (2::real) powr (- 53)" by (rule powr_ge_zero)
  qed
  finally show ?thesis using me(1) unfolding q_def by blast
qed

lemma float64_round_exact:
  assumes "0 < num" "0 < den" "L = ilog2 num den" "- 1022 \<le> L" "L \<le> 1022"
    "\<bar>real_of_int num / real_of_int den * 2 powr (52 - real_of_int L) - real_of_int k\<bar> < 1 / 2"
  shows "\<exists>m e. float64_round num den = Finite m e \<and>
           real_of_int m * 2 powr real_of_int e = real_of_int k * 2 powr (real_of_int L - 52)"
proof -
  define N where "N = num * 2 ^ nat (52 - L)"
  define D where "D = den * 2 ^ nat (L - 52)"
  obtain m e where me: "float64_round num den = Finite m e"
    "real_of_int m * 2 powr real_of_int e =
       real_of_int (round_half_even N D) * 2 powr (real_of_int L - 52)"
    using float64_round_normal [OF assms(1-5)] unfolding N_def D_def by blast
  have D: "0 < D" using assms(2) by (simp add: D_def)
  have s: "real_of_int N / real_of_int D =
      real_of_int num / real_of_int den * 2 powr (52 - real_of_int L)"
    using scaled_ratio [OF assms(2), of num "L - 52"] by (simp add: N_def D_def)
  have "round_half_even N D = k"
    using round_half_even_unique [OF D, of N k] s assms(6) by simp
  then show ?thesis using me by auto
qed

subsection \<open>The results are float64 values\<close>

lemma round_half_even_less:
  assumes "0 < d" "0 \<le> n" "real_of_int n / real_of_int d < 2 ^ 53"
  shows "0 \<le> round_half_even n d \<and> round_half_even n d \<le> 2 ^ 53"
proof -
  define m where "m = round_half_even n d"
  have e: "\<bar>real_of_int m - real_of_int n / real_of_int d\<bar> \<le> 1 / 2"
    unfolding m_def by (rule round_half_even_error [OF assms(1)])
  have "0 \<le> real_of_int n / real_of_int d" using assms(1,2) by simp
  then have "- 1 < real_of_int m" using e by linarith
  then have lo: "0 \<le> m" by linarith
  have "real_of_int n / real_of_int d < 9007199254740992" using assms(3) by simp
  then have "real_of_int m < 9007199254740993" using e by linarith
  then have "m < 9007199254740993" by simp
  then show ?thesis using lo by (simp add: m_def)
qed

lemma float64_round_representable:
  assumes "0 < den"
  shows "float64_representable (float64_round num den)"
proof (cases "num = 0")
  case True
  then show ?thesis by (simp add: float64_round_def float64_representable_def)
next
  case False
  define a where "a = \<bar>num\<bar>"
  define e where "e = max (ilog2 a den - 52) (- 1074)"
  define m where "m = round_half_even (a * 2 ^ nat (- e)) (den * 2 ^ nat e)"
  have a: "0 < a" using False by (simp add: a_def)
  have D: "0 < den * 2 ^ nat e" using assms by simp
  have N: "0 \<le> a * 2 ^ nat (- e)" using a by simp
  have "real_of_int a / real_of_int den < 2 powr (real_of_int (ilog2 a den) + 1)"
    by (rule ilog2_bounds(2) [OF a assms])
  also have "\<dots> \<le> 2 powr (real_of_int e + 53)"
    by (rule powr_mono) (simp_all add: e_def)
  finally have q: "real_of_int a / real_of_int den < 2 powr (real_of_int e + 53)" .
  have "real_of_int (a * 2 ^ nat (- e)) / real_of_int (den * 2 ^ nat e) =
      real_of_int a / real_of_int den * 2 powr (- real_of_int e)"
    by (rule scaled_ratio [OF assms])
  also have "\<dots> < 2 powr (real_of_int e + 53) * 2 powr (- real_of_int e)"
    by (rule mult_strict_right_mono [OF q]) simp
  also have "\<dots> = 2 ^ 53"
    by (simp add: powr_add [symmetric])
  finally have s: "real_of_int (a * 2 ^ nat (- e)) / real_of_int (den * 2 ^ nat e) < 2 ^ 53" .
  have m: "0 \<le> m" "m \<le> 2 ^ 53"
    using round_half_even_less [OF D N s] by (simp_all add: m_def)
  have e: "- 1074 \<le> e" by (simp add: e_def)
  have sg: "\<bar>sgn num * k\<bar> = \<bar>k\<bar>" for k using False by (simp add: abs_mult)
  have "float64_round num den =
      (if (if m = 2 ^ 53 then e + 1 else e) > 971 then Infinity (num < 0)
       else Finite (sgn num * (if m = 2 ^ 53 then 2 ^ 52 else m)) (if m = 2 ^ 53 then e + 1 else e))"
    using False unfolding float64_round_def Let_def a_def [symmetric] e_def [symmetric]
      m_def [symmetric] by simp
  then show ?thesis
    using m e by (auto simp: float64_representable_def sg)
qed

lemma float64_of_binary_representable: "float64_representable (float64_of_binary m e)"
  by (simp add: float64_of_binary_def float64_round_representable)

lemma float64_of_decimal_representable: "float64_representable (float64_of_decimal m e)"
  by (simp add: float64_of_decimal_def float64_round_representable)

lemma float64_mul_representable: "float64_representable (float64_mul x y)"
  by (induction x y rule: float64_mul.induct)
    (simp_all add: float64_of_binary_representable, simp_all add: float64_representable_def)

lemma Ceil_representable:
  assumes "float64_representable f"
  shows "float64_representable (Ceil f)"
proof (cases f)
  case (Finite m e)
  show ?thesis
  proof (cases "0 \<le> e")
    case True
    then show ?thesis using assms Finite by simp
  next
    case False
    define k where "k = (2::int) ^ nat (- e)"
    have k: "1 \<le> k" by (simp add: k_def)
    define x where "x = real_of_int m / real_of_int k"
    have c: "- ((- m) div k) = \<lceil>x\<rceil>"
      unfolding x_def by (simp only: ceiling_divide_eq_div)
    have kr: "1 \<le> real_of_int k" using k by simp
    have "1 * \<bar>real_of_int m\<bar> \<le> real_of_int k * \<bar>real_of_int m\<bar>"
      by (rule mult_right_mono [OF kr]) simp
    then have "\<bar>real_of_int m / real_of_int k\<bar> \<le> \<bar>real_of_int m\<bar>"
      using kr by (simp add: field_simps)
    then have ax: "\<bar>x\<bar> \<le> real_of_int \<bar>m\<bar>"
      by (simp only: x_def of_int_abs)
    have "x \<le> real_of_int \<bar>m\<bar>" using ax by linarith
    then have hi: "\<lceil>x\<rceil> \<le> \<bar>m\<bar>" by (simp only: ceiling_le_iff)
    have "- real_of_int \<bar>m\<bar> \<le> real_of_int \<lceil>x\<rceil>"
      using ax le_of_int_ceiling [of x] by linarith
    then have "real_of_int (- \<bar>m\<bar>) \<le> real_of_int \<lceil>x\<rceil>" by simp
    then have lo: "- \<bar>m\<bar> \<le> \<lceil>x\<rceil>" by (simp only: of_int_le_iff)
    have "\<bar>- ((- m) div k)\<bar> \<le> \<bar>m\<bar>"
      unfolding c using hi lo by linarith
    then show ?thesis
      using assms Finite False by (simp add: float64_representable_def k_def)
  qed
qed (simp_all add: float64_representable_def)

lemma special_representable: "special s = Some f \<Longrightarrow> float64_representable f"
  by (auto simp: special_def Let_def float64_representable_def split: if_splits)

lemma ParseFloat_representable: "float64_representable (fst (ParseFloat s))"
proof (cases "special s")
  case (Some f)
  then show ?thesis by (simp add: ParseFloat_def special_representable)
next
  case None
  show ?thesis
  proof (cases "readFloat s")
    case None
    then show ?thesis
      using \<open>special s = None\<close> by (simp add: ParseFloat_def float64_representable_def)
  next
    case (Some r)
    obtain neg man ex hex rest where r: "r = (neg, man, ex, hex, rest)"
      by (cases r) auto
    show ?thesis
      using \<open>special s = None\<close> Some
      by (simp add: ParseFloat_def r Let_def float64_of_binary_representable
          float64_of_decimal_representable, simp add: float64_representable_def)
  qed
qed

section \<open>The price times 0.2, rounded up\<close>

lemma float64_of_binary_ratio:
  assumes "0 < M"
  shows "\<exists>num den. 0 < num \<and> 0 < den \<and> float64_of_binary M E = float64_round num den \<and>
           real_of_int num / real_of_int den = real_of_int M * 2 powr real_of_int E"
proof (cases "0 \<le> E")
  case True
  have "real_of_int (M * 2 ^ nat E) / real_of_int 1 = real_of_int M * 2 powr real_of_int E"
    using True by (simp add: two_power_nat)
  moreover have "float64_of_binary M E = float64_round (M * 2 ^ nat E) 1"
    using True by (simp add: float64_of_binary_def)
  moreover have "0 < M * 2 ^ nat E" using assms by simp
  ultimately show ?thesis by (metis zero_less_one)
next
  case False
  have "real_of_int M / real_of_int (2 ^ nat (- E)) = real_of_int M * 2 powr real_of_int E"
    using False two_power_nat [of "- E"] by (simp add: powr_minus field_simps)
  moreover have "float64_of_binary M E = float64_round M (2 ^ nat (- E))"
    using False by (simp add: float64_of_binary_def)
  moreover have "(0::int) < 2 ^ nat (- E)" by simp
  ultimately show ?thesis using assms by blast
qed

lemma mul_one_fifth:
  assumes "0 < m1"
  shows "\<exists>num den. 0 < num \<and> 0 < den \<and>
           float64_mul (Finite m1 e1) (float64_round 1 5) = float64_round num den \<and>
           real_of_int num / real_of_int den =
             real_of_int m1 * 2 powr real_of_int e1 * (7205759403792794 / 2 ^ 55)"
proof -
  have pos: "0 < m1 * 7205759403792794" using assms by simp
  obtain num den where nd: "0 < num" "0 < den"
    "float64_of_binary (m1 * 7205759403792794) (e1 + - 55) = float64_round num den"
    "real_of_int num / real_of_int den =
       real_of_int (m1 * 7205759403792794) * 2 powr real_of_int (e1 + - 55)"
    using float64_of_binary_ratio [OF pos] by blast
  have "(2::real) powr real_of_int (e1 + - 55) = 2 powr real_of_int e1 * (1 / 2 ^ 55)"
    by (simp add: powr_diff)
  then have "real_of_int num / real_of_int den =
      real_of_int m1 * 2 powr real_of_int e1 * (7205759403792794 / 2 ^ 55)"
    using nd(4) by (simp del: power_numeral)
  moreover have "float64_mul (Finite m1 e1) (float64_round 1 5) = float64_round num den"
    using nd(3) by (simp add: float64_one_fifth)
  ultimately show ?thesis using nd(1,2) by blast
qed

lemma Ceil_to_int:
  assumes "- (2 ^ 63) \<le> \<lceil>real_of_int m * 2 powr real_of_int e\<rceil>"
    "\<lceil>real_of_int m * 2 powr real_of_int e\<rceil> < 2 ^ 63"
  shows "float64_to_int unrep (Ceil (Finite m e)) =
         word_of_int \<lceil>real_of_int m * 2 powr real_of_int e\<rceil>"
proof (cases "0 \<le> e")
  case True
  have "real_of_int m * 2 powr real_of_int e = real_of_int (m * 2 ^ nat e)"
    using True by (simp add: two_power_nat)
  then have c: "\<lceil>real_of_int m * 2 powr real_of_int e\<rceil> = m * 2 ^ nat e"
    by (simp only: ceiling_of_int)
  show ?thesis
    using assms True unfolding c by (simp add: float64_trunc_def)
next
  case False
  have "real_of_int m * 2 powr real_of_int e = real_of_int m / real_of_int (2 ^ nat (- e))"
    using False two_power_nat [of "- e"] by (simp add: powr_minus field_simps)
  then have c: "\<lceil>real_of_int m * 2 powr real_of_int e\<rceil> = - (- m div 2 ^ nat (- e))"
    by (simp only: ceiling_divide_eq_div)
  show ?thesis
    using assms False unfolding c by (simp add: float64_trunc_def)
qed

lemma tiny_le: "(2::real) powr (- 1022) \<le> 1 / 1024"
proof -
  have "(2::real) powr (- 1022) \<le> 2 powr (- 10)" by (rule powr_mono) simp_all
  also have "\<dots> = 1 / 1024" by (simp add: powr_neg_numeral)
  finally show ?thesis .
qed

lemma huge_ge: "(2::real) ^ 51 \<le> 2 powr 1023"
proof -
  have "(2::real) ^ 51 = 2 powr 51" by (simp del: power_numeral)
  also have "\<dots> \<le> 2 powr 1023" by (rule powr_mono) simp_all
  finally show ?thesis .
qed

lemma powr_m53: "(2::real) powr (- 53) = 1 / 9007199254740992"
  by (simp add: powr_neg_numeral)

lemma round_cents:
  assumes "0 < c" "c < 2 ^ 51"
  shows "\<exists>m e. float64_round c 100 = Finite m e \<and> 0 < m \<and>
           \<bar>real_of_int m * 2 powr real_of_int e - real_of_int c / 100\<bar>
             \<le> real_of_int c / 100 * (1 / 9007199254740992)"
proof -
  have c: "1 \<le> real_of_int c" "real_of_int c < 2 ^ 51"
    using assms by (simp_all add: of_int_less_iff [of c "2 ^ 51", simplified] del: power_numeral)
  have lo: "2 powr (- 1022) \<le> real_of_int c / real_of_int 100"
    using tiny_le c(1) by simp
  have "real_of_int c / real_of_int 100 < 2 ^ 51" using c by simp
  then have hi: "real_of_int c / real_of_int 100 < 2 powr 1023"
    using huge_ge by linarith
  obtain m e where me: "float64_round c 100 = Finite m e"
    "\<bar>real_of_int m * 2 powr real_of_int e - real_of_int c / real_of_int 100\<bar>
       \<le> real_of_int c / real_of_int 100 * 2 powr (- 53)"
    using float64_round_rel_error [OF assms(1) _ lo hi] by auto
  define v where "v = real_of_int m * 2 powr real_of_int e"
  have err: "\<bar>v - real_of_int c / 100\<bar> \<le> real_of_int c / 100 * (1 / 9007199254740992)"
    using me(2) by (simp only: powr_m53 of_int_numeral v_def)
  then have "0 < v" using c(1) by linarith
  then have "0 < m"
    by (simp add: v_def zero_less_mult_iff)
  then show ?thesis using me(1) err unfolding v_def by blast
qed

lemma price_points_inexact:
  assumes "0 < c" "c < 2 ^ 51" "c mod 500 \<noteq> 0"
  shows "\<exists>m e. float64_mul (float64_round c 100) (float64_round 1 5) = Finite m e \<and>
           \<lceil>real_of_int m * 2 powr real_of_int e\<rceil> = c div 500 + 1"
proof -
  obtain m1 e1 where x: "float64_round c 100 = Finite m1 e1" "0 < m1"
    "\<bar>real_of_int m1 * 2 powr real_of_int e1 - real_of_int c / 100\<bar>
       \<le> real_of_int c / 100 * (1 / 9007199254740992)"
    using round_cents [OF assms(1,2)] by blast
  define vx where "vx = real_of_int m1 * 2 powr real_of_int e1"
  obtain num den where nd: "0 < num" "0 < den"
    "float64_mul (Finite m1 e1) (float64_round 1 5) = float64_round num den"
    "real_of_int num / real_of_int den =
       real_of_int m1 * 2 powr real_of_int e1 * (7205759403792794 / 2 ^ 55)"
    using mul_one_fifth [OF x(2)] by blast
  define q2 where "q2 = real_of_int num / real_of_int den"
  have q2: "q2 = vx * (7205759403792794 / 36028797018963968)"
    using nd(4) by (simp add: q2_def vx_def)
  have err1: "\<bar>vx - real_of_int c / 100\<bar> \<le> real_of_int c / 100 * (1 / 9007199254740992)"
    using x(3) by (simp only: vx_def)
  have c: "1 \<le> real_of_int c" "real_of_int c < 2251799813685248"
    using assms by (simp_all add: of_int_less_iff [of c "2 ^ 51", simplified])
  have q2lo: "1 / 1024 \<le> q2" using q2 err1 c by linarith
  have q2hi: "q2 < 2251799813685248" using q2 err1 c by linarith
  have p51: "(2251799813685248::real) \<le> 2 powr 1023" using huge_ge by simp
  have lo: "2 powr (- 1022) \<le> real_of_int num / real_of_int den"
    using tiny_le q2lo unfolding q2_def by linarith
  have hi: "real_of_int num / real_of_int den < 2 powr 1023"
    using p51 q2hi unfolding q2_def by linarith
  obtain m e where y: "float64_round num den = Finite m e"
    "\<bar>real_of_int m * 2 powr real_of_int e - real_of_int num / real_of_int den\<bar>
       \<le> real_of_int num / real_of_int den * 2 powr (- 53)"
    using float64_round_rel_error [OF nd(1,2) lo hi] by blast
  define vy where "vy = real_of_int m * 2 powr real_of_int e"
  have err2: "\<bar>vy - q2\<bar> \<le> q2 * (1 / 9007199254740992)"
    using y(2) by (simp only: powr_m53 vy_def q2_def)
  define k where "k = c div 500"
  define r where "r = c mod 500"
  have "c = 500 * k + r" by (simp add: k_def r_def)
  then have ck: "real_of_int c = 500 * real_of_int k + real_of_int r"
    by (metis of_int_add of_int_mult of_int_numeral)
  have "1 \<le> r" "r \<le> 499"
    using assms(3) pos_mod_sign [of 500 c] pos_mod_bound [of 500 c] by (simp_all add: r_def)
  then have r: "1 \<le> real_of_int r" "real_of_int r \<le> 499" by simp_all
  have "real_of_int k < vy" using err1 err2 q2 ck r c by linarith
  moreover have "vy \<le> real_of_int k + 1" using err1 err2 q2 ck r c by linarith
  ultimately have "\<lceil>vy\<rceil> = k + 1" by (rule ceiling_eq)
  then show ?thesis
    using x(1) nd(3) y(1) unfolding vy_def k_def by auto
qed

lemma powr_cancel_52: "2 powr (52 - x) * 2 powr (x - 52) = (1::real)"
  by (simp add: powr_add [symmetric])

lemma ilog2_small:
  assumes "0 < num" "0 < den" "1 \<le> real_of_int num / real_of_int den"
    "real_of_int num / real_of_int den < 2251799813685248"
  shows "0 \<le> ilog2 num den \<and> ilog2 num den \<le> 50"
proof -
  have "(1::real) = 2 powr 0" by simp
  then have "2 powr 0 < 2 powr (real_of_int (ilog2 num den) + 1)"
    using ilog2_bounds(2) [OF assms(1,2)] assms(3) by linarith
  then have a: "0 < real_of_int (ilog2 num den) + 1"
    by (rule powr_less_cancel) simp
  have "(2251799813685248::real) = 2 powr 51" by simp
  then have "2 powr real_of_int (ilog2 num den) < 2 powr 51"
    using ilog2_bounds(1) [OF assms(1,2)] assms(4) by linarith
  then have "real_of_int (ilog2 num den) < 51"
    by (rule powr_less_cancel) simp
  then show ?thesis using a by linarith
qed

text \<open>
  A ratio within less than half a unit in the last place above an integer
  \<open>n < 2^51\<close> rounds to \<open>n\<close>.
\<close>

lemma float64_round_near_int:
  assumes "0 < num" "0 < den" "0 < n"
    "real_of_int n \<le> real_of_int num / real_of_int den"
    "real_of_int num / real_of_int den \<le> real_of_int n * (1 + 1 / 18014398509481984)"
    "real_of_int num / real_of_int den < 2251799813685248"
  shows "\<exists>m e. float64_round num den = Finite m e \<and>
           real_of_int m * 2 powr real_of_int e = real_of_int n"
proof -
  define q where "q = real_of_int num / real_of_int den"
  define L where "L = ilog2 num den"
  have n1: "1 \<le> real_of_int n" using assms(3) by simp
  have q1: "1 \<le> q" using n1 assms(4) by (simp add: q_def)
  have L: "0 \<le> L" "L \<le> 50"
    using ilog2_small [OF assms(1,2) q1 [unfolded q_def] assms(6)] by (simp_all add: L_def)
  have range: "- 1022 \<le> L" "L \<le> 1022" using L by simp_all
  define P where "P = (2::real) powr (52 - real_of_int L)"
  have Ppos: "0 < P" by (simp add: P_def)
  define k where "k = n * 2 ^ nat (52 - L)"
  have kP: "real_of_int k = real_of_int n * P"
    using L two_power_nat [of "52 - L"] by (simp add: k_def P_def)
  have "q < 2 powr (real_of_int L + 1)"
    using ilog2_bounds(2) [OF assms(1,2)] by (simp add: q_def L_def)
  then have nL: "real_of_int n < 2 powr (real_of_int L + 1)"
    using assms(4) by (simp add: q_def)
  have "2 powr (real_of_int L + 1) * P = 2 powr 53"
    by (simp add: P_def powr_add [symmetric] del: powr_numeral)
  then have LP: "2 powr (real_of_int L + 1) * P = 9007199254740992" by simp
  have "real_of_int n * P < 2 powr (real_of_int L + 1) * P"
    using nL Ppos by (rule mult_strict_right_mono)
  then have nP: "real_of_int n * P < 9007199254740992" using LP by simp
  have a4: "real_of_int n \<le> q" using assms(4) by (simp only: q_def)
  have a5: "q \<le> real_of_int n * (1 + 1 / 18014398509481984)"
    using assms(5) by (simp only: q_def)
  have lo: "real_of_int n * P \<le> q * P"
    by (rule mult_right_mono [OF a4 less_imp_le [OF Ppos]])
  have "q * P \<le> real_of_int n * (1 + 1 / 18014398509481984) * P"
    by (rule mult_right_mono [OF a5 less_imp_le [OF Ppos]])
  then have hi: "q * P \<le> real_of_int n * P + real_of_int n * P / 18014398509481984"
    by (simp add: algebra_simps)
  have "\<bar>q * P - real_of_int k\<bar> < 1 / 2"
    using lo hi nP kP by linarith
  then have near: "\<bar>real_of_int num / real_of_int den * 2 powr (52 - real_of_int L) -
      real_of_int k\<bar> < 1 / 2"
    by (simp only: q_def P_def)
  obtain m e where me: "float64_round num den = Finite m e"
    "real_of_int m * 2 powr real_of_int e = real_of_int k * 2 powr (real_of_int L - 52)"
    using float64_round_exact [OF assms(1,2) L_def range near] by blast
  have "real_of_int k * 2 powr (real_of_int L - 52) = real_of_int n"
    using powr_cancel_52 [of "real_of_int L"] by (simp add: kP P_def)
  then show ?thesis using me by auto
qed

lemma price_points_multiple:
  assumes "0 < n" "500 * n < 2 ^ 51"
  shows "\<exists>m e. float64_mul (float64_round (500 * n) 100) (float64_round 1 5) = Finite m e \<and>
           real_of_int m * 2 powr real_of_int e = real_of_int n"
proof -
  have n: "1 \<le> real_of_int n" "500 * real_of_int n < 2251799813685248"
    using assms by (simp_all add: of_int_less_iff [of "500 * n" "2 ^ 51", simplified])
  have five: "0 < 5 * n" using assms(1) by simp
  have q1: "real_of_int (500 * n) / real_of_int 100 = real_of_int (5 * n)" by simp
  obtain m1 e1 where x: "float64_round (500 * n) 100 = Finite m1 e1"
    "real_of_int m1 * 2 powr real_of_int e1 = real_of_int (5 * n)"
  proof -
    have a: "real_of_int (5 * n) \<le> real_of_int (500 * n) / real_of_int 100" by simp
    have b: "real_of_int (500 * n) / real_of_int 100 \<le>
        real_of_int (5 * n) * (1 + 1 / 18014398509481984)"
      using n by simp
    have c: "real_of_int (500 * n) / real_of_int 100 < 2251799813685248"
      using n by simp
    have d: "(0::int) < 500 * n" "(0::int) < 100" using assms(1) by simp_all
    show ?thesis
      using float64_round_near_int [OF d five a b c] that by blast
  qed
  have "0 < real_of_int m1 * 2 powr real_of_int e1" using x(2) n by simp
  then have m1: "0 < m1" by (simp add: zero_less_mult_iff)
  obtain num den where nd: "0 < num" "0 < den"
    "float64_mul (Finite m1 e1) (float64_round 1 5) = float64_round num den"
    "real_of_int num / real_of_int den =
       real_of_int m1 * 2 powr real_of_int e1 * (7205759403792794 / 2 ^ 55)"
    using mul_one_fifth [OF m1] by blast
  define q where "q = real_of_int num / real_of_int den"
  have "q = real_of_int (5 * n) * (7205759403792794 / 2 ^ 55)"
    using nd(4) by (simp only: x(2) q_def)
  then have q2: "q = real_of_int n * (1 + 1 / 18014398509481984)"
    by simp
  then have q2': "q = real_of_int n + real_of_int n / 18014398509481984"
    by (simp add: algebra_simps)
  have a: "real_of_int n \<le> real_of_int num / real_of_int den"
    using q2' n unfolding q_def [symmetric] by linarith
  have b: "real_of_int num / real_of_int den \<le> real_of_int n * (1 + 1 / 18014398509481984)"
    using q2 unfolding q_def [symmetric] by simp
  have c: "real_of_int num / real_of_int den < 2251799813685248"
    using q2' n unfolding q_def [symmetric] by linarith
  obtain m e where "float64_round num den = Finite m e"
    "real_of_int m * 2 powr real_of_int e = real_of_int n"
    using float64_round_near_int [OF nd(1,2) assms(1) a b c] by blast
  then show ?thesis using x(1) nd(3) by auto
qed

section \<open>ParseFloat on an amount with two fractional digits\<close>

lemma foldl_decimal:
  "foldl (\<lambda>n c. n * 10 + digitVal c) acc s =
     acc * 10 ^ length s + foldl (\<lambda>n c. n * 10 + digitVal c) 0 s"
proof (induction s arbitrary: acc)
  case Nil
  show ?case by simp
next
  case (Cons c s)
  show ?case
    using Cons.IH [of "acc * 10 + digitVal c"] Cons.IH [of "digitVal c"]
    by (simp add: algebra_simps)
qed

lemma decimalValue_Cons:
  "decimalValue (c # s) = digitVal c * 10 ^ length s + decimalValue s"
  using foldl_decimal [of "digitVal c" s] by (simp add: decimalValue_def)

lemma decimalValue_append:
  "decimalValue (xs @ ys) = decimalValue xs * 10 ^ length ys + decimalValue ys"
  using foldl_decimal [of "decimalValue xs" ys] by (simp add: decimalValue_def)

lemma isDigit_chars:
  assumes "isDigit c"
  shows "c \<noteq> CHR ''_''" "c \<noteq> CHR ''.''" "c \<noteq> CHR ''+''" "c \<noteq> CHR ''-''"
    "lower c \<noteq> 120" "lower c \<noteq> 105" "lower c \<noteq> 110" "lower c \<noteq> 101"
proof -
  have r: "48 \<le> (of_char c :: nat)" "(of_char c :: nat) \<le> 57"
    using assms by (simp_all add: isDigit_def)
  show "c \<noteq> CHR ''_''" "c \<noteq> CHR ''.''" "c \<noteq> CHR ''+''" "c \<noteq> CHR ''-''"
    using r by auto
  have "(of_char c :: nat) div 32 = 1" using r by simp
  then have "lower c = of_char c" by (simp add: lower_def Let_def)
  then show "lower c \<noteq> 120" "lower c \<noteq> 105" "lower c \<noteq> 110" "lower c \<noteq> 101"
    using r by simp_all
qed

lemma digitVal_zero: "digitVal (CHR ''0'') = 0"
  by (simp add: digitVal_def)

text \<open>What the mantissa loop does on a run of digits.\<close>

lemma readMantissa_digits:
  assumes "digits xs" "nd st = 0 \<longrightarrow> mantissa st = 0"
  shows "\<exists>st'. readMantissa 10 (xs @ rest) st = readMantissa 10 rest st' \<and>
           sawdot st' = sawdot st \<and> underscores st' = underscores st \<and>
           sawdigits st' = (sawdigits st \<or> xs \<noteq> []) \<and>
           mantissa st' = mantissa st * 10 ^ length xs + decimalValue xs \<and>
           dp st' - int (nd st') = dp st - int (nd st) - int (length xs) \<and>
           (sawdot st \<or> nd st' \<le> nd st + length xs) \<and>
           (nd st' = 0 \<longrightarrow> mantissa st' = 0)"
  using assms
proof (induction xs arbitrary: st)
  case Nil
  show ?case using Nil by (auto simp: decimalValue_def)
next
  case (Cons c xs)
  have c: "isDigit c" and xs: "digits xs" using Cons.prems(1) by (simp_all add: digits_def)
  note ch = isDigit_chars [OF c]
  show ?case
  proof (cases "c = CHR ''0'' \<and> nd st = 0")
    case True
    define st1 where "st1 = st\<lparr>sawdigits := True, dp := dp st - 1\<rparr>"
    have step: "readMantissa 10 ((c # xs) @ rest) st = readMantissa 10 (xs @ rest) st1"
      using True c ch by (simp add: st1_def)
    have inv: "nd st1 = 0 \<longrightarrow> mantissa st1 = 0"
      using True Cons.prems(2) by (simp add: st1_def)
    obtain st' where st': "readMantissa 10 (xs @ rest) st1 = readMantissa 10 rest st'"
      "sawdot st' = sawdot st1" "underscores st' = underscores st1"
      "sawdigits st' = (sawdigits st1 \<or> xs \<noteq> [])"
      "mantissa st' = mantissa st1 * 10 ^ length xs + decimalValue xs"
      "dp st' - int (nd st') = dp st1 - int (nd st1) - int (length xs)"
      "sawdot st1 \<or> nd st' \<le> nd st1 + length xs"
      "nd st' = 0 \<longrightarrow> mantissa st' = 0"
      using Cons.IH [OF xs inv] by (elim exE conjE) (rule that)
    have m0: "mantissa st = 0" using True Cons.prems(2) by simp
    have "decimalValue (c # xs) = decimalValue xs"
      using True by (simp add: decimalValue_Cons digitVal_zero)
    then show ?thesis
      using step st' m0 by (intro exI [of _ st']) (auto simp: st1_def)
  next
    case False
    define st1 where
      "st1 = st\<lparr>sawdigits := True, nd := nd st + 1, mantissa := mantissa st * 10 + digitVal c\<rparr>"
    have step: "readMantissa 10 ((c # xs) @ rest) st = readMantissa 10 (xs @ rest) st1"
      using False c ch by (auto simp: st1_def)
    have inv: "nd st1 = 0 \<longrightarrow> mantissa st1 = 0" by (simp add: st1_def)
    obtain st' where st': "readMantissa 10 (xs @ rest) st1 = readMantissa 10 rest st'"
      "sawdot st' = sawdot st1" "underscores st' = underscores st1"
      "sawdigits st' = (sawdigits st1 \<or> xs \<noteq> [])"
      "mantissa st' = mantissa st1 * 10 ^ length xs + decimalValue xs"
      "dp st' - int (nd st') = dp st1 - int (nd st1) - int (length xs)"
      "sawdot st1 \<or> nd st' \<le> nd st1 + length xs"
      "nd st' = 0 \<longrightarrow> mantissa st' = 0"
      using Cons.IH [OF xs inv] by (elim exE conjE) (rule that)
    have "mantissa st1 * 10 ^ length xs + decimalValue xs =
        mantissa st * 10 ^ length (c # xs) + decimalValue (c # xs)"
      by (simp add: st1_def decimalValue_Cons algebra_simps)
    then show ?thesis
      using step st' by (intro exI [of _ st']) (auto simp: st1_def)
  qed
qed

lemma validAmount_decomp:
  assumes "validAmount s"
  shows "\<exists>ds a b. s = ds @ [CHR ''.'', a, b] \<and> ds \<noteq> [] \<and> digits ds \<and> isDigit a \<and> isDigit b"
proof -
  define n where "n = length s"
  have n: "4 \<le> n" using assms by (simp add: validAmount_def n_def)
  define ds where "ds = take (n - 3) s"
  define fs where "fs = drop (n - 2) s"
  have lfs: "length fs = 2" using n by (simp add: fs_def n_def)
  then obtain a b where fs: "fs = [a, b]"
    by (auto simp: eval_nat_numeral length_Suc_conv)
  have "drop (n - 3) s = s ! (n - 3) # drop (Suc (n - 3)) s"
    using n by (simp add: n_def Cons_nth_drop_Suc)
  moreover have "Suc (n - 3) = n - 2" using n by simp
  ultimately have "drop (n - 3) s = CHR ''.'' # fs"
    using assms by (simp add: validAmount_def n_def fs_def)
  then have "s = ds @ CHR ''.'' # fs"
    unfolding ds_def by (metis append_take_drop_id)
  moreover have "ds \<noteq> []" using n by (auto simp: ds_def n_def)
  moreover have "digits ds" using assms by (simp add: validAmount_def ds_def n_def)
  moreover have "digits fs" using assms by (simp add: validAmount_def fs_def n_def)
  ultimately show ?thesis using fs by (auto simp: digits_def)
qed

lemma amountCents_decomp:
  assumes "digits ds" "isDigit a" "isDigit b"
  shows "amountCents (ds @ [CHR ''.'', a, b]) = decimalValue (ds @ [a, b])"
proof -
  have "ReplaceAll ds CHR ''.'' [] = ds"
    using assms(1)
    by (induction ds) (auto simp: ReplaceAll_def digits_def dest: isDigit_chars(2))
  then have "ReplaceAll (ds @ [CHR ''.'', a, b]) CHR ''.'' [] = ds @ [a, b]"
    using isDigit_chars(2) [OF assms(2)] isDigit_chars(2) [OF assms(3)]
    by (simp add: ReplaceAll_def)
  then show ?thesis by (simp add: amountCents_def)
qed

lemma readFloat_amount:
  assumes "ds \<noteq> []" "digits ds" "isDigit a" "isDigit b"
  shows "readFloat (ds @ [CHR ''.'', a, b]) = Some (False, decimalValue (ds @ [a, b]), - 2, False, [])"
proof -
  define s where "s = ds @ [CHR ''.'', a, b]"
  define st0 where "st0 = \<lparr>sawdot = False, sawdigits = False, nd = 0, dp = 0, mantissa = 0,
                          underscores = False\<rparr>"
  have inv0: "nd st0 = 0 \<longrightarrow> mantissa st0 = 0" by (simp add: st0_def)
  obtain st1 where st1: "readMantissa 10 (ds @ [CHR ''.'', a, b]) st0 =
      readMantissa 10 [CHR ''.'', a, b] st1"
    "sawdot st1 = sawdot st0" "underscores st1 = underscores st0"
    "sawdigits st1 = (sawdigits st0 \<or> ds \<noteq> [])"
    "mantissa st1 = mantissa st0 * 10 ^ length ds + decimalValue ds"
    "nd st1 = 0 \<longrightarrow> mantissa st1 = 0"
    using readMantissa_digits [OF assms(2) inv0, of "[CHR ''.'', a, b]"]
    by (elim exE conjE) (rule that)
  define st2 where "st2 = st1\<lparr>sawdot := True, dp := int (nd st1)\<rparr>"
  have dot: "readMantissa 10 [CHR ''.'', a, b] st1 = readMantissa 10 ([a, b] @ []) st2"
    using st1(2) by (simp add: st0_def st2_def)
  have dab: "digits [a, b]" using assms(3,4) by (simp add: digits_def)
  have inv2: "nd st2 = 0 \<longrightarrow> mantissa st2 = 0" using st1(6) by (simp add: st2_def)
  obtain st3 where st3: "readMantissa 10 ([a, b] @ []) st2 = readMantissa 10 [] st3"
    "sawdot st3 = sawdot st2" "underscores st3 = underscores st2"
    "sawdigits st3 = (sawdigits st2 \<or> [a, b] \<noteq> [])"
    "mantissa st3 = mantissa st2 * 10 ^ length [a, b] + decimalValue [a, b]"
    "dp st3 - int (nd st3) = dp st2 - int (nd st2) - int (length [a, b])"
    using readMantissa_digits [OF dab inv2, of "[]"] by (elim exE conjE) (rule that)
  have rm: "readMantissa 10 s st0 = (st3, [])"
    using st1(1) dot st3(1) by (simp add: s_def)
  have m: "mantissa st3 = decimalValue (ds @ [a, b])"
    using st3(5) st1(5) by (simp add: st2_def st0_def decimalValue_append)
  have e: "dp st3 - int (nd st3) = - 2"
    using st3(6) by (simp add: st2_def)
  have flags: "sawdot st3" "sawdigits st3" "\<not> underscores st3"
    using st3(2,3,4) st1(3) by (simp_all add: st2_def st0_def)
  obtain c cs where ds: "ds = c # cs" using assms(1) by (cases ds) auto
  have c: "isDigit c" using assms(2) ds by (simp add: digits_def)
  note ch = isDigit_chars [OF c]
  have hd: "s \<noteq> []" "hd s = c" by (simp_all add: s_def ds)
  have nohex: "\<not> (2 < length s \<and> s ! 0 = CHR ''0'' \<and> lower (s ! 1) = 120)"
  proof (cases cs)
    case Nil
    have "lower (CHR ''.'') = 46" by (simp add: lower_def)
    then show ?thesis using Nil by (simp add: s_def ds)
  next
    case (Cons d cs')
    then have "isDigit d" using assms(2) ds by (simp add: digits_def)
    then show ?thesis using Cons isDigit_chars(5) [of d] by (simp add: s_def ds)
  qed
  have "readFloat s = Some (False, mantissa st3, dp st3 - int (nd st3), False, [])"
    unfolding readFloat_def using hd ch nohex rm flags
    by (auto simp add: Let_def st0_def [symmetric])
  then show ?thesis using m e by (simp add: s_def)
qed

lemma special_amount:
  assumes "s = c # cs" "isDigit c"
  shows "special s = None"
proof -
  note ch = isDigit_chars [OF assms(2)]
  have "map lower s \<noteq> map of_char ''inf''" "map lower s \<noteq> map of_char ''infinity''"
    "map lower s \<noteq> map of_char ''nan''"
    using ch assms(1) by auto
  then show ?thesis using ch assms(1) by (simp add: special_def Let_def)
qed

lemma ParseFloat_amount:
  assumes "validAmount s"
  shows "fst (ParseFloat s) = float64_round (amountCents s) 100"
proof -
  obtain ds a b where d: "s = ds @ [CHR ''.'', a, b]" "ds \<noteq> []" "digits ds" "isDigit a" "isDigit b"
    using validAmount_decomp [OF assms] by blast
  obtain c cs where ds: "ds = c # cs" using d(2) by (cases ds) auto
  have c: "isDigit c" using d(3) ds by (simp add: digits_def)
  have sp: "special s = None"
    by (rule special_amount [of s c "cs @ [CHR ''.'', a, b]"]) (simp_all add: d(1) ds c)
  have rf: "readFloat s = Some (False, decimalValue (ds @ [a, b]), - 2, False, [])"
    unfolding d(1) by (rule readFloat_amount [OF d(2-5)])
  have ac: "amountCents s = decimalValue (ds @ [a, b])"
    unfolding d(1) by (rule amountCents_decomp [OF d(3-5)])
  show ?thesis
    by (simp add: ParseFloat_def sp rf ac float64_of_decimal_def Let_def)
qed

section \<open>Totals and prices that are no numbers\<close>

text \<open>
  ParseFloat accepts every decimal number, so a price that it rejects as a syntax
  error is no decimal number.
\<close>

lemma readMantissa_decimal:
  assumes "list_all (\<lambda>c. isDigit c \<or> c = CHR ''.'') t"
    "length (filter (\<lambda>c. c = CHR ''.'') t) \<le> (if sawdot st then 0 else 1)"
  shows "\<exists>st'. readMantissa 10 t st = (st', []) \<and> underscores st' = underscores st \<and>
           sawdigits st' = (sawdigits st \<or> list_ex isDigit t)"
  using assms
proof (induction t arbitrary: st)
  case Nil
  show ?case by simp
next
  case (Cons c t)
  have t: "list_all (\<lambda>c. isDigit c \<or> c = CHR ''.'') t" using Cons.prems(1) by simp
  have "\<exists>st1. readMantissa 10 (c # t) st = readMantissa 10 t st1 \<and>
      underscores st1 = underscores st \<and> sawdigits st1 = (sawdigits st \<or> isDigit c) \<and>
      length (filter (\<lambda>c. c = CHR ''.'') t) \<le> (if sawdot st1 then 0 else 1)"
  proof (cases "c = CHR ''.''")
    case True
    have nd: "\<not> isDigit c" using True by (simp add: isDigit_def)
    have sd: "\<not> sawdot st" using Cons.prems(2) True by (simp split: if_splits)
    have f: "length (filter (\<lambda>c. c = CHR ''.'') t) = 0" using Cons.prems(2) True sd by simp
    have "readMantissa 10 (c # t) st = readMantissa 10 t (st\<lparr>sawdot := True, dp := int (nd st)\<rparr>)"
      using True sd by simp
    then show ?thesis
      using nd f by (intro exI [of _ "st\<lparr>sawdot := True, dp := int (nd st)\<rparr>"]) simp
  next
    case False
    then have c: "isDigit c" using Cons.prems(1) by simp
    note ch = isDigit_chars(1,2) [OF c]
    have f: "length (filter (\<lambda>c. c = CHR ''.'') t) \<le> (if sawdot st then 0 else 1)"
      using Cons.prems(2) False by simp
    show ?thesis
    proof (cases "c = CHR ''0'' \<and> nd st = 0")
      case True
      have "readMantissa 10 (c # t) st =
          readMantissa 10 t (st\<lparr>sawdigits := True, dp := dp st - 1\<rparr>)"
        using True c ch by simp
      then show ?thesis
        using c f by (intro exI [of _ "st\<lparr>sawdigits := True, dp := dp st - 1\<rparr>"]) simp
    next
      case F: False
      have "readMantissa 10 (c # t) st =
          readMantissa 10 t (st\<lparr>sawdigits := True, nd := nd st + 1,
                                mantissa := mantissa st * 10 + digitVal c\<rparr>)"
        using F c ch by auto
      then show ?thesis
        using c f
        by (intro exI [of _ "st\<lparr>sawdigits := True, nd := nd st + 1,
                                mantissa := mantissa st * 10 + digitVal c\<rparr>"]) simp
    qed
  qed
  then obtain st1 where st1: "readMantissa 10 (c # t) st = readMantissa 10 t st1"
    "underscores st1 = underscores st" "sawdigits st1 = (sawdigits st \<or> isDigit c)"
    "length (filter (\<lambda>c. c = CHR ''.'') t) \<le> (if sawdot st1 then 0 else 1)"
    by (elim exE conjE) (rule that)
  obtain st' where "readMantissa 10 t st1 = (st', [])" "underscores st' = underscores st1"
    "sawdigits st' = (sawdigits st1 \<or> list_ex isDigit t)"
    using Cons.IH [OF t st1(4)] by (elim exE conjE) (rule that)
  then show ?case using st1(1-3) by simp
qed

lemma lower_signs: "lower (CHR ''.'') = 46" "lower (CHR ''+'') = 43" "lower (CHR ''-'') = 45"
  by (simp_all add: lower_def)

lemma decimal_char:
  assumes "isDigit c \<or> c = CHR ''.'' \<or> c = CHR ''+'' \<or> c = CHR ''-''"
  shows "lower c \<noteq> 120" "lower c \<noteq> 105" "lower c \<noteq> 110" "lower c \<noteq> 101"
  using assms isDigit_chars(5-8) [of c] lower_signs by auto

lemma decimalNumber_accepted:
  assumes "decimalNumber s"
  shows "snd (ParseFloat s) \<noteq> Some ErrSyntax"
proof -
  define t where "t = (if s \<noteq> [] \<and> (hd s = CHR ''+'' \<or> hd s = CHR ''-'') then tl s else s)"
  have t: "list_all (\<lambda>c. isDigit c \<or> c = CHR ''.'') t" "list_ex isDigit t"
    "length (filter (\<lambda>c. c = CHR ''.'') t) \<le> 1"
    using assms by (simp_all add: decimalNumber_def Let_def t_def [symmetric])
  have tne: "t \<noteq> []" using t(2) by auto
  then have sne: "s \<noteq> []" by (auto simp: t_def)
  then have t': "t = (if hd s = CHR ''+'' \<or> hd s = CHR ''-'' then tl s else s)"
    by (simp add: t_def)
  obtain c cs where tc: "t = c # cs" using tne by (cases t) auto
  have c: "isDigit c \<or> c = CHR ''.''" using t(1) tc by simp
  have nohex: "\<not> (2 < length t \<and> t ! 0 = CHR ''0'' \<and> lower (t ! 1) = 120)"
  proof (cases cs)
    case Nil
    then show ?thesis by (simp add: tc)
  next
    case (Cons d cs')
    then have "isDigit d \<or> d = CHR ''.''" using t(1) tc by simp
    then show ?thesis using Cons decimal_char(1) [of d] by (auto simp: tc)
  qed
  define st0 where "st0 = \<lparr>sawdot = False, sawdigits = False, nd = 0, dp = 0, mantissa = 0,
                          underscores = False\<rparr>"
  have dots: "length (filter (\<lambda>c. c = CHR ''.'') t) \<le> (if sawdot st0 then 0 else 1)"
    using t(3) by (simp add: st0_def)
  obtain st where st: "readMantissa 10 t st0 = (st, [])" "underscores st = underscores st0"
    "sawdigits st = (sawdigits st0 \<or> list_ex isDigit t)"
    using readMantissa_decimal [OF t(1) dots] by (elim exE conjE) (rule that)
  have flags: "sawdigits st" "\<not> underscores st" using st(2,3) t(2) by (simp_all add: st0_def)
  have nohex': "(2 < length t \<and> t ! 0 = CHR ''0'' \<and> lower (t ! Suc 0) = 120) \<longleftrightarrow> False"
    using nohex by simp
  have rf: "\<exists>neg man ex. readFloat s = Some (neg, man, ex, False, [])"
    unfolding readFloat_def using sne
    by (simp add: Let_def st0_def [symmetric] t' [symmetric] nohex' st(1) flags)
  have l: "map lower t \<noteq> map of_char ''inf''" "map lower t \<noteq> map of_char ''infinity''"
    using decimal_char(2) [of c] c by (auto simp: tc)
  obtain b bs where sb: "s = b # bs" using sne by (cases s) auto
  have "isDigit b \<or> b = CHR ''.'' \<or> b = CHR ''+'' \<or> b = CHR ''-''"
    using c tc sb by (auto simp: t' split: if_splits)
  then have n: "map lower s \<noteq> map of_char ''nan''"
    using decimal_char(3) [of b] by (auto simp: sb)
  have sp: "special s = None"
    using l n by (simp add: special_def Let_def t_def [symmetric])
  obtain neg man ex where "readFloat s = Some (neg, man, ex, False, [])"
    using rf by blast
  then show ?thesis
    by (simp add: ParseFloat_def sp Let_def split: float64.splits)
qed

lemma ParseFloat_zero: "fst (ParseFloat ''0.00'') = Finite 0 0"
  by code_simp

lemma itemRule_zero_price: "itemRule unrep (item\<lparr>Price := ''0.00''\<rparr>) points = points"
  by (simp add: itemRule_def Let_def ParseFloat_zero zero_price_points)

lemma fold_itemRule_zero_price:
  "fold (itemRule unrep)
     (map (\<lambda>item. if snd (ParseFloat (Price item)) = Some ErrSyntax
                   then item\<lparr>Price := ''0.00''\<rparr> else item) items) points =
   fold (itemRule unrep) items points"
  by (induction items arbitrary: points)
     (auto simp: itemRule_syntax_error itemRule_zero_price)

text \<open>
  C1 as stated fails for the total and for the price. The total "abc.00" is no
  decimal number, yet the round-dollar block adds 50 (it looks at the last three
  bytes only) and the quarter-multiple block adds 25 (Atoi fails with the value 0,
  and 0 is a multiple of 25): scenario A with this total scores 87, not the 12 of the
  five other rules. The price "0x1p4" is no decimal number either, yet ParseFloat
  reads it as the hexadecimal number 16 and the item adds 4 points: scenario A with
  this item scores 41, not the 37 of the six other rules; and the price "1_0.00",
  which ParseFloat reads as 10, adds 2.
\<close>

theorem malformed_numbers_counterexample:
  "\<not> decimalNumber (Total receiptBadTotal) \<and>
   snd (ParseFloat (Total receiptBadTotal)) = Some ErrSyntax \<and>
   roundDollarRule receiptBadTotal 0 = 50 \<and> quarterRule receiptBadTotal 0 = 25 \<and>
   calculatePoints unrep_amd64 receiptBadTotal = Inr 87 \<and>
   calculatePoints unrep_amd64 (receiptBadTotal\<lparr>Total := ''0.01''\<rparr>) = Inr 12 \<and>
   \<not> decimalNumber (Price hexItem) \<and> itemRule unrep_amd64 hexItem 0 = 4 \<and>
   calculatePoints unrep_amd64 receiptHexPrice = Inr 41 \<and>
   calculatePoints unrep_amd64 (receiptHexPrice\<lparr>Items := []\<rparr>) = Inr 37 \<and>
   \<not> decimalNumber (Price underscoreItem) \<and> itemRule unrep_amd64 underscoreItem 0 = 2"
  by code_simp

text \<open>
  C1, amended. An item whose price ParseFloat rejects as a syntax error (such a price
  is no decimal number) adds nothing: calculatePoints returns the sum of the seven
  rules with the description rule run over the other items only, which is what it
  returns when every such price is replaced by "0.00". No total and no price makes
  calculatePoints panic: it panics exactly when the purchase date has fewer than
  three parts between dashes, and otherwise returns the sum of the rules, in which
  the round-dollar rule, a test of the last three bytes of the total, counts 50 or
  nothing and the quarter-multiple rule 25 or nothing. (When the quarter-multiple
  rule counts 25 on a total that is no number is not part of the amended claim.)
\<close>

theorem malformed_numbers:
  "(snd (ParseFloat (Price item)) = Some ErrSyntax \<longrightarrow>
      \<not> decimalNumber (Price item) \<and> itemRule unrep item points = points) \<and>
   descriptionRule unrep receipt points =
     descriptionRule unrep
       (receipt\<lparr>Items :=
          filter (\<lambda>item. snd (ParseFloat (Price item)) \<noteq> Some ErrSyntax) (Items receipt)\<rparr>)
       points \<and>
   calculatePoints unrep receipt =
     (case oddDayRule receipt
             (descriptionRule unrep
                (receipt\<lparr>Items :=
                   filter (\<lambda>item. snd (ParseFloat (Price item)) \<noteq> Some ErrSyntax)
                     (Items receipt)\<rparr>)
                (itemCountRule receipt
                   (quarterRule receipt (roundDollarRule receipt (retailerRule receipt 0))))) of
        Inl p \<Rightarrow> Inl p
      | Inr q \<Rightarrow> Inr (afternoonRule receipt q)) \<and>
   calculatePoints unrep
     (receipt\<lparr>Items :=
        map (\<lambda>item. if snd (ParseFloat (Price item)) = Some ErrSyntax
                      then item\<lparr>Price := ''0.00''\<rparr> else item) (Items receipt)\<rparr>) =
     calculatePoints unrep receipt \<and>
   isl (calculatePoints unrep (receipt\<lparr>Total := total', Items := items'\<rparr>)) =
     isl (calculatePoints unrep receipt) \<and>
   (isl (calculatePoints unrep receipt) \<longleftrightarrow>
      length (Split (PurchaseDate receipt) CHR ''-'') \<le> 2) \<and>
   calculatePoints unrep receipt =
     (case oddDayRule receipt
             (descriptionRule unrep receipt
                (itemCountRule receipt
                   (retailerRule receipt 0 +
                    (if HasSuffix (Total receipt) ''.00'' then 50 else 0) +
                    quarterRule receipt 0))) of
        Inl p \<Rightarrow> Inl p
      | Inr q \<Rightarrow> Inr (afternoonRule receipt q)) \<and>
   (quarterRule receipt 0 = 0 \<or> quarterRule receipt 0 = 25)"
proof -
  have a: "descriptionRule unrep receipt q =
     descriptionRule unrep
       (receipt\<lparr>Items :=
          filter (\<lambda>item. snd (ParseFloat (Price item)) \<noteq> Some ErrSyntax) (Items receipt)\<rparr>)
       q" for q
    by (simp add: descriptionRule_def fold_itemRule_filter)
  have b: "calculatePoints unrep receipt =
     (case oddDayRule receipt
             (descriptionRule unrep
                (receipt\<lparr>Items :=
                   filter (\<lambda>item. snd (ParseFloat (Price item)) \<noteq> Some ErrSyntax)
                     (Items receipt)\<rparr>)
                (itemCountRule receipt
                   (quarterRule receipt (roundDollarRule receipt (retailerRule receipt 0))))) of
        Inl p \<Rightarrow> Inl p
      | Inr q \<Rightarrow> Inr (afternoonRule receipt q))"
    unfolding a [symmetric] by (simp add: calculatePoints_def Let_def)
  have c: "calculatePoints unrep
     (receipt\<lparr>Items :=
        map (\<lambda>item. if snd (ParseFloat (Price item)) = Some ErrSyntax
                      then item\<lparr>Price := ''0.00''\<rparr> else item) (Items receipt)\<rparr>) =
     calculatePoints unrep receipt"
  proof -
    define items' where "items' =
        map (\<lambda>item. if snd (ParseFloat (Price item)) = Some ErrSyntax
                      then item\<lparr>Price := ''0.00''\<rparr> else item) (Items receipt)"
    have others: "retailerRule (receipt\<lparr>Items := items'\<rparr>) q = retailerRule receipt q"
      "roundDollarRule (receipt\<lparr>Items := items'\<rparr>) q = roundDollarRule receipt q"
      "quarterRule (receipt\<lparr>Items := items'\<rparr>) q = quarterRule receipt q"
      "itemCountRule (receipt\<lparr>Items := items'\<rparr>) q = itemCountRule receipt q"
      "descriptionRule unrep (receipt\<lparr>Items := items'\<rparr>) q = descriptionRule unrep receipt q"
      "oddDayRule (receipt\<lparr>Items := items'\<rparr>) q = oddDayRule receipt q"
      "afternoonRule (receipt\<lparr>Items := items'\<rparr>) q = afternoonRule receipt q" for q
      by (simp_all add: retailerRule_def roundDollarRule_def quarterRule_def itemCountRule_def
          descriptionRule_def fold_itemRule_zero_price oddDayRule_def afternoonRule_def len_def
          items'_def)
    show ?thesis
      unfolding items'_def [symmetric]
      by (simp add: calculatePoints_def Let_def others cong: sum.case_cong)
  qed
  have d: "calculatePoints unrep receipt =
     (case oddDayRule receipt
             (descriptionRule unrep receipt
                (itemCountRule receipt
                   (retailerRule receipt 0 +
                    (if HasSuffix (Total receipt) ''.00'' then 50 else 0) +
                    quarterRule receipt 0))) of
        Inl p \<Rightarrow> Inl p
      | Inr q \<Rightarrow> Inr (afternoonRule receipt q))"
    by (simp add: calculatePoints_def Let_def roundDollarRule_def quarterRule_def)
  have q: "quarterRule receipt 0 = 0 \<or> quarterRule receipt 0 = 25"
    by (simp add: quarterRule_def)
  have e: "snd (ParseFloat (Price item)) = Some ErrSyntax \<longrightarrow>
      \<not> decimalNumber (Price item) \<and> itemRule unrep item points = points"
    using decimalNumber_accepted [of "Price item"] by (auto simp: itemRule_syntax_error)
  have f: "isl (calculatePoints unrep (receipt\<lparr>Total := total', Items := items'\<rparr>)) =
      isl (calculatePoints unrep receipt)"
    by (simp add: calculatePoints_panics)
  have g: "isl (calculatePoints unrep receipt) \<longleftrightarrow>
      length (Split (PurchaseDate receipt) CHR ''-'') \<le> 2"
    by (rule calculatePoints_panics)
  show ?thesis using e a b c f g d q by (intro conjI)
qed

theorem malformed_numbers_witness:
  "snd (ParseFloat (Price commaItem)) = Some ErrSyntax \<and>
   \<not> decimalNumber (Price commaItem) \<and>
   itemRule unrep_amd64 commaItem 7 = 7 \<and>
   calculatePoints unrep_amd64 receiptCommaPrice = Inr 37"
proof -
  have h: "snd (ParseFloat (Price commaItem)) = Some ErrSyntax"
    by code_simp
  note t = malformed_numbers [of commaItem unrep_amd64 7 receiptCommaPrice]
  have i: "\<not> decimalNumber (Price commaItem)" "itemRule unrep_amd64 commaItem 7 = 7"
    using t h by blast+
  have o: "(case oddDayRule receiptCommaPrice
             (descriptionRule unrep_amd64
                (receiptCommaPrice\<lparr>Items :=
                   filter (\<lambda>item. snd (ParseFloat (Price item)) \<noteq> Some ErrSyntax)
                     (Items receiptCommaPrice)\<rparr>)
                (itemCountRule receiptCommaPrice
                   (quarterRule receiptCommaPrice
                      (roundDollarRule receiptCommaPrice (retailerRule receiptCommaPrice 0))))) of
        Inl p \<Rightarrow> Inl p
      | Inr q \<Rightarrow> Inr (afternoonRule receiptCommaPrice q)) = Inr 37"
    by code_simp
  have "calculatePoints unrep_amd64 receiptCommaPrice =
     (case oddDayRule receiptCommaPrice
             (descriptionRule unrep_amd64
                (receiptCommaPrice\<lparr>Items :=
                   filter (\<lambda>item. snd (ParseFloat (Price item)) \<noteq> Some ErrSyntax)
                     (Items receiptCommaPrice)\<rparr>)
                (itemCountRule receiptCommaPrice
                   (quarterRule receiptCommaPrice
                      (roundDollarRule receiptCommaPrice (retailerRule receiptCommaPrice 0))))) of
        Inl p \<Rightarrow> Inl p
      | Inr q \<Rightarrow> Inr (afternoonRule receiptCommaPrice q))"
    using t by blast
  then have s: "calculatePoints unrep_amd64 receiptCommaPrice = Inr 37"
    unfolding o .
  show ?thesis using h i s by (intro conjI)
qed

section \<open>The description rule\<close>

lemma price_points:
  assumes "0 \<le> c" "c < 2 ^ 51"
  shows "float64_to_int unrep (Ceil (float64_mul (float64_round c 100) (float64_round 1 5))) =
         word_of_int ((c + 499) div 500)"
proof -
  consider "c = 0" | "0 < c" "c mod 500 = 0" | "0 < c" "c mod 500 \<noteq> 0"
    using assms(1) by linarith
  then show ?thesis
  proof cases
    case 1
    then show ?thesis
      by (simp add: float64_round_zero float64_one_fifth float64_of_binary_zero
          float64_trunc_def)
  next
    case 2
    define n where "n = c div 500"
    have c: "c = 500 * n" using 2(2) mult_div_mod_eq [of 500 c] by (simp add: n_def)
    have n: "0 < n" "500 * n < 2 ^ 51" using 2(1) assms(2) c by simp_all
    obtain m e where me:
      "float64_mul (float64_round (500 * n) 100) (float64_round 1 5) = Finite m e"
      "real_of_int m * 2 powr real_of_int e = real_of_int n"
      using price_points_multiple [OF n] by blast
    have ce: "\<lceil>real_of_int m * 2 powr real_of_int e\<rceil> = n"
      by (simp only: me(2) ceiling_of_int)
    have "float64_to_int unrep (Ceil (Finite m e)) =
        word_of_int \<lceil>real_of_int m * 2 powr real_of_int e\<rceil>"
      by (rule Ceil_to_int) (use n ce in simp_all)
    moreover have "(c + 499) div 500 = n" by (simp add: c)
    ultimately show ?thesis using me(1) ce c by simp
  next
    case 3
    obtain m e where me:
      "float64_mul (float64_round c 100) (float64_round 1 5) = Finite m e"
      "\<lceil>real_of_int m * 2 powr real_of_int e\<rceil> = c div 500 + 1"
      using price_points_inexact [OF 3(1) assms(2) 3(2)] by blast
    have r: "0 < c mod 500" using 3(2) pos_mod_sign [of 500 c] by linarith
    have k: "(c + 499) div 500 = c div 500 + 1"
    proof -
      have "c + 499 = (c div 500 + 1) * 500 + (c mod 500 - 1)" by (simp add: algebra_simps)
      moreover have "((c div 500 + 1) * 500 + (c mod 500 - 1)) div 500 = c div 500 + 1"
        using r pos_mod_bound [of 500 c] by (subst div_mult_self3) simp_all
      ultimately show ?thesis by simp
    qed
    have b: "0 \<le> c div 500 + 1" "c div 500 + 1 < 2 ^ 63"
      using 3(1) assms(2) by simp_all
    have "float64_to_int unrep (Ceil (Finite m e)) =
        word_of_int \<lceil>real_of_int m * 2 powr real_of_int e\<rceil>"
      by (rule Ceil_to_int) (use b me(2) in simp_all)
    then show ?thesis using me k by simp
  qed
qed

lemma ceiling_fifth: "\<lceil>real_of_int c / 100 * 0.2\<rceil> = (c + 499) div 500"
proof -
  have "real_of_int c / 100 * 0.2 = real_of_int c / real_of_int 500" by simp
  then have "\<lceil>real_of_int c / 100 * 0.2\<rceil> = - (- c div 500)"
    by (simp only: ceiling_divide_eq_div)
  also have "\<dots> = (c + 499) div 500" by linarith
  finally show ?thesis .
qed

lemma decimalValue_nonneg: "digits s \<Longrightarrow> 0 \<le> decimalValue s"
proof (induction s rule: rev_induct)
  case Nil
  show ?case by (simp add: decimalValue_def)
next
  case (snoc c s)
  then have "isDigit c" "digits s" by (simp_all add: digits_def)
  then show ?case
    using snoc.IH digitVal_range [of c] by (simp add: decimalValue_append decimalValue_def)
qed

lemma amountCents_nonneg:
  assumes "validAmount s"
  shows "0 \<le> amountCents s"
proof -
  obtain ds a b where d: "s = ds @ [CHR ''.'', a, b]" "ds \<noteq> []" "digits ds" "isDigit a" "isDigit b"
    using validAmount_decomp [OF assms] by blast
  have "digits (ds @ [a, b])" using d(3-5) by (simp add: digits_def)
  then show ?thesis
    unfolding d(1) amountCents_decomp [OF d(3-5)] by (rule decimalValue_nonneg)
qed

lemma sint_word_of_int:
  "- (2 ^ 63) \<le> k \<Longrightarrow> k < 2 ^ 63 \<Longrightarrow> sint (word_of_int k :: go_int) = k"
  by (simp add: sint_sbintrunc' signed_take_bit_int_eq_self)

lemma sint_len:
  assumes "length xs < 2 ^ 63"
  shows "sint (len xs) = int (length xs)"
proof -
  have "int (length xs) < 2 ^ 63" using assms by (simp add: of_nat_less_numeral_power_cancel_iff)
  moreover have "- (2 ^ 63) \<le> int (length xs)" by simp
  ultimately have "signed_take_bit 63 (int (length xs)) = int (length xs)"
    by (rule signed_take_bit_int_eq_self [rotated])
  then show ?thesis by (simp add: len_def signed_of_nat)
qed

lemma go_rem_len:
  assumes "length xs < 2 ^ 63"
  shows "go_rem (len xs) 3 = 0 \<longleftrightarrow> length xs mod 3 = 0"
proof -
  have s: "sint (len xs) = int (length xs)" using assms by (rule sint_len)
  have "sint (3 :: go_int) = 3" by simp
  then have "go_rem (len xs) 3 = word_of_int (int (length xs) mod 3)"
    by (simp add: go_rem_def s)
  also have "\<dots> = 0 \<longleftrightarrow> int (length xs) mod 3 = 0"
  proof -
    have "0 \<le> int (length xs) mod 3" "int (length xs) mod 3 < 3" by simp_all
    then have "- (2 ^ 63) \<le> int (length xs) mod 3" "int (length xs) mod 3 < 2 ^ 63"
      by simp_all
    then have "sint (word_of_int (int (length xs) mod 3) :: go_int) = int (length xs) mod 3"
      by (rule sint_word_of_int)
    then show ?thesis by (metis sint_0 word_of_int_0)
  qed
  also have "\<dots> \<longleftrightarrow> length xs mod 3 = 0"
    by (metis of_nat_eq_0_iff of_nat_mod of_nat_numeral)
  finally show ?thesis .
qed

lemma TrimLeftSpace_length: "length (TrimLeftSpace s) \<le> length s"
proof (induction s rule: TrimLeftSpace.induct)
  case (1 s)
  show ?case
  proof (cases "spaceWidth s = 0 \<or> s = []")
    case True
    then show ?thesis by (simp add: TrimLeftSpace.simps [of s])
  next
    case False
    then have "length (TrimLeftSpace (drop (spaceWidth s) s)) \<le> length (drop (spaceWidth s) s)"
      using 1 by simp
    then show ?thesis using False by (simp add: TrimLeftSpace.simps [of s])
  qed
qed

lemma TrimRightSpace_length: "length (TrimRightSpace s) \<le> length s"
proof (induction s rule: TrimRightSpace.induct)
  case (1 s)
  show ?case
  proof (cases "lastSpaceWidth s = 0 \<or> s = []")
    case True
    then show ?thesis by (simp add: TrimRightSpace.simps [of s])
  next
    case False
    then have "length (TrimRightSpace (take (length s - lastSpaceWidth s) s)) \<le>
        length (take (length s - lastSpaceWidth s) s)"
      using 1 by simp
    then show ?thesis using False by (simp add: TrimRightSpace.simps [of s])
  qed
qed

lemma TrimSpace_length: "length (TrimSpace s) \<le> length s"
  unfolding TrimSpace_def
  using TrimRightSpace_length [of "TrimLeftSpace s"] TrimLeftSpace_length [of s] by linarith

lemma valid_price_points:
  assumes "validAmount price" "amountCents price < 2 ^ 51"
  shows "float64_to_int unrep (Ceil (float64_mul (fst (ParseFloat price)) (float64_round 1 5))) =
         word_of_int \<lceil>real_of_int (amountCents price) / 100 * 0.2\<rceil>"
  unfolding ParseFloat_amount [OF assms(1)] ceiling_fifth
  by (rule price_points [OF amountCents_nonneg [OF assms(1)] assms(2)])

text \<open>The loop of the description rule adds the sum of what its body adds.\<close>

lemma fold_itemRule_sum:
  assumes "\<And>item q. item \<in> set items \<Longrightarrow> itemRule unrep item q = q + word_of_int (g item)"
  shows "fold (itemRule unrep) items p = p + word_of_int (sum_list (map g items))"
  using assms
proof (induction items arbitrary: p)
  case Nil
  show ?case by simp
next
  case (Cons item items)
  have "fold (itemRule unrep) items (itemRule unrep item p) =
      itemRule unrep item p + word_of_int (sum_list (map g items))"
    by (rule Cons.IH) (simp add: Cons.prems)
  then show ?case by (simp add: Cons.prems)
qed

lemma itemRule_bonus:
  assumes "length (ShortDescription item) < 2 ^ 63"
    "length (TrimSpace (ShortDescription item)) mod 3 = 0 \<longrightarrow>
       validAmount (Price item) \<and> amountCents (Price item) < 2 ^ 51"
  shows "itemRule unrep item points = points + word_of_int (descriptionBonus item)"
proof -
  have "length (TrimSpace (ShortDescription item)) < 2 ^ 63"
    using TrimSpace_length [of "ShortDescription item"] assms(1) by linarith
  then have m: "go_rem (len (TrimSpace (ShortDescription item))) 3 = 0 \<longleftrightarrow>
      length (TrimSpace (ShortDescription item)) mod 3 = 0"
    by (rule go_rem_len)
  show ?thesis
    using assms(2)
    by (simp add: itemRule_def Let_def m valid_price_points descriptionBonus_def itemBonus_def)
qed

lemma descriptionBonus_exact:
  "descriptionBonus item =
     (if length (TrimSpace (ShortDescription item)) mod 3 = 0
      then (amountCents (Price item) + 499) div 500 else 0)"
  by (simp only: descriptionBonus_def itemBonus_def ceiling_fifth)

text \<open>
  What one item adds to the result of calculatePoints, whatever the other items
  are: the receipt is compared with the same receipt in which the description of the
  item is "x", whose length is no multiple of 3.
\<close>

lemma itemRule_x: "itemRule unrep (item\<lparr>ShortDescription := ''x''\<rparr>) q = q"
proof -
  have "go_rem (len (TrimSpace ''x'')) 3 \<noteq> 0" by code_simp
  then show ?thesis by (simp add: itemRule_def)
qed

lemma calculatePoints_item:
  assumes "\<And>q. itemRule unrep item q = q + k"
  shows "calculatePoints unrep (receipt\<lparr>Items := earlier @ item # later\<rparr>) =
         (case calculatePoints unrep
                 (receipt\<lparr>Items := earlier @ item\<lparr>ShortDescription := ''x''\<rparr> # later\<rparr>) of
            Inl p \<Rightarrow> Inl p
          | Inr q \<Rightarrow> Inr (q + k))"
proof -
  define r1 where "r1 = receipt\<lparr>Items := earlier @ item # later\<rparr>"
  define r0 where
    "r0 = receipt\<lparr>Items := earlier @ item\<lparr>ShortDescription := ''x''\<rparr> # later\<rparr>"
  have same: "retailerRule r1 q = retailerRule r0 q"
    "roundDollarRule r1 q = roundDollarRule r0 q"
    "quarterRule r1 q = quarterRule r0 q"
    "itemCountRule r1 q = itemCountRule r0 q"
    "oddDayRule r1 q = oddDayRule r0 q"
    "afternoonRule r1 q = afternoonRule r0 q" for q
    by (simp_all add: r1_def r0_def retailerRule_def roundDollarRule_def quarterRule_def
        itemCountRule_def oddDayRule_def afternoonRule_def len_def)
  have d: "descriptionRule unrep r1 q = descriptionRule unrep r0 q + k" for q
    by (simp add: r1_def r0_def descriptionRule_def assms itemRule_x fold_itemRule_add)
  show ?thesis
    unfolding r1_def [symmetric] r0_def [symmetric]
    by (simp add: calculatePoints_def Let_def same d oddDayRule_add afternoonRule_add
        split: sum.splits)
qed

text \<open>
  C4 as stated fails in two ways. The description "Creme" with a grave accent on
  its first e has five characters and six bytes in UTF-8; Go's \<open>len\<close> counts the
  bytes, so the item earns the bonus although its length in characters is no
  multiple of 3. And for the valid price "9000000000000000.01" float64 loses the
  cent: the code adds 1800000000000000 where the price times 0.2, rounded up, is
  1800000000000001.
\<close>

theorem description_length_bonus_counterexample:
  "characterCount (TrimSpace (ShortDescription cremeItem)) = 5 \<and>
   itemRule unrep_amd64 cremeItem 0 = 1 \<and>
   validAmount (Price quadrillionItem) \<and>
   itemRule unrep_amd64 quadrillionItem 0 = 1800000000000000 \<and>
   \<lceil>real_of_int (amountCents (Price quadrillionItem)) / 100 * 0.2\<rceil> = 1800000000000001"
proof -
  have "characterCount (TrimSpace (ShortDescription cremeItem)) = 5" by code_simp
  moreover have "itemRule unrep_amd64 cremeItem 0 = 1" by code_simp
  moreover have "validAmount (Price quadrillionItem)" by code_simp
  moreover have "itemRule unrep_amd64 quadrillionItem 0 = 1800000000000000" by code_simp
  moreover have "(amountCents (Price quadrillionItem) + 499) div 500 = 1800000000000001"
    by code_simp
  ultimately show ?thesis by (simp only: ceiling_fifth simp_thms)
qed

text \<open>
  C4, amended. An item whose description, after TrimSpace, has a length in bytes
  that is no multiple of 3 adds nothing, whatever its price; an item whose trimmed
  length in bytes is a multiple of 3 (0 included) and whose price is a valid amount
  below \<open>2^51\<close> cents adds exactly the price times 0.2 rounded up, as float64
  computes it without error there. For a receipt all of whose items are of these two
  kinds, the loop of the description rule adds the sum of these bonuses over the
  items, and calculatePoints returns what the six other rules give with that sum
  added. And for an item of one of these two kinds at any place in any receipt,
  calculatePoints returns, with the bonus of the item added, what it returns for the
  same receipt when the description of that item is replaced by "x", which does not
  qualify. (The length of a Go string is below \<open>2^63\<close>.)
\<close>

theorem description_length_bonus:
  "(length (ShortDescription item) < 2 ^ 63 \<longrightarrow>
      (length (TrimSpace (ShortDescription item)) mod 3 \<noteq> 0 \<longrightarrow>
         itemRule unrep item points = points) \<and>
      (length (TrimSpace (ShortDescription item)) mod 3 = 0 \<and>
       validAmount (Price item) \<and> amountCents (Price item) < 2 ^ 51 \<longrightarrow>
         itemRule unrep item points =
           points + word_of_int \<lceil>real_of_int (amountCents (Price item)) / 100 * 0.2\<rceil>)) \<and>
   ((\<forall>item \<in> set (Items receipt).
        length (ShortDescription item) < 2 ^ 63 \<and>
        (length (TrimSpace (ShortDescription item)) mod 3 = 0 \<longrightarrow>
           validAmount (Price item) \<and> amountCents (Price item) < 2 ^ 51)) \<longrightarrow>
      descriptionRule unrep receipt points =
        points + word_of_int (sum_list (map descriptionBonus (Items receipt))) \<and>
      calculatePoints unrep receipt =
        (case oddDayRule receipt
                (itemCountRule receipt
                   (quarterRule receipt (roundDollarRule receipt (retailerRule receipt 0))) +
                 word_of_int (sum_list (map descriptionBonus (Items receipt)))) of
           Inl p \<Rightarrow> Inl p
         | Inr q \<Rightarrow> Inr (afternoonRule receipt q))) \<and>
   (length (ShortDescription item) < 2 ^ 63 \<and>
    (length (TrimSpace (ShortDescription item)) mod 3 = 0 \<longrightarrow>
       validAmount (Price item) \<and> amountCents (Price item) < 2 ^ 51) \<longrightarrow>
      calculatePoints unrep (receipt\<lparr>Items := earlier @ item # later\<rparr>) =
        (case calculatePoints unrep
                (receipt\<lparr>Items := earlier @ item\<lparr>ShortDescription := ''x''\<rparr> # later\<rparr>) of
           Inl p \<Rightarrow> Inl p
         | Inr q \<Rightarrow> Inr (q + word_of_int (descriptionBonus item))))"
proof -
  have a: "(length (TrimSpace (ShortDescription item)) mod 3 \<noteq> 0 \<longrightarrow>
         itemRule unrep item points = points) \<and>
      (length (TrimSpace (ShortDescription item)) mod 3 = 0 \<and>
       validAmount (Price item) \<and> amountCents (Price item) < 2 ^ 51 \<longrightarrow>
         itemRule unrep item points =
           points + word_of_int \<lceil>real_of_int (amountCents (Price item)) / 100 * 0.2\<rceil>)"
    if l: "length (ShortDescription item) < 2 ^ 63"
  proof -
    have "length (TrimSpace (ShortDescription item)) < 2 ^ 63"
      using TrimSpace_length [of "ShortDescription item"] l by linarith
    then have m: "go_rem (len (TrimSpace (ShortDescription item))) 3 = 0 \<longleftrightarrow>
        length (TrimSpace (ShortDescription item)) mod 3 = 0"
      by (rule go_rem_len)
    show ?thesis
      by (simp add: itemRule_def Let_def m valid_price_points)
  qed
  have b: "descriptionRule unrep receipt q =
        q + word_of_int (sum_list (map descriptionBonus (Items receipt)))"
    if h: "\<forall>item \<in> set (Items receipt).
        length (ShortDescription item) < 2 ^ 63 \<and>
        (length (TrimSpace (ShortDescription item)) mod 3 = 0 \<longrightarrow>
           validAmount (Price item) \<and> amountCents (Price item) < 2 ^ 51)" for q
    unfolding descriptionRule_def
    by (rule fold_itemRule_sum) (use h in \<open>simp add: itemRule_bonus\<close>)
  have c: "calculatePoints unrep receipt =
        (case oddDayRule receipt
                (itemCountRule receipt
                   (quarterRule receipt (roundDollarRule receipt (retailerRule receipt 0))) +
                 word_of_int (sum_list (map descriptionBonus (Items receipt)))) of
           Inl p \<Rightarrow> Inl p
         | Inr q \<Rightarrow> Inr (afternoonRule receipt q))"
    if h: "\<forall>item \<in> set (Items receipt).
        length (ShortDescription item) < 2 ^ 63 \<and>
        (length (TrimSpace (ShortDescription item)) mod 3 = 0 \<longrightarrow>
           validAmount (Price item) \<and> amountCents (Price item) < 2 ^ 51)"
    by (simp add: calculatePoints_def Let_def b [OF h])
  have d: "calculatePoints unrep (receipt\<lparr>Items := earlier @ item # later\<rparr>) =
        (case calculatePoints unrep
                (receipt\<lparr>Items := earlier @ item\<lparr>ShortDescription := ''x''\<rparr> # later\<rparr>) of
           Inl p \<Rightarrow> Inl p
         | Inr q \<Rightarrow> Inr (q + word_of_int (descriptionBonus item)))"
    if l: "length (ShortDescription item) < 2 ^ 63"
      and v: "length (TrimSpace (ShortDescription item)) mod 3 = 0 \<longrightarrow>
         validAmount (Price item) \<and> amountCents (Price item) < 2 ^ 51"
    by (rule calculatePoints_item) (rule itemRule_bonus [OF l v])
  have a': "length (ShortDescription item) < 2 ^ 63 \<longrightarrow>
      (length (TrimSpace (ShortDescription item)) mod 3 \<noteq> 0 \<longrightarrow>
         itemRule unrep item points = points) \<and>
      (length (TrimSpace (ShortDescription item)) mod 3 = 0 \<and>
       validAmount (Price item) \<and> amountCents (Price item) < 2 ^ 51 \<longrightarrow>
         itemRule unrep item points =
           points + word_of_int \<lceil>real_of_int (amountCents (Price item)) / 100 * 0.2\<rceil>)"
    by (rule impI) (rule a)
  have bc: "(\<forall>item \<in> set (Items receipt).
        length (ShortDescription item) < 2 ^ 63 \<and>
        (length (TrimSpace (ShortDescription item)) mod 3 = 0 \<longrightarrow>
           validAmount (Price item) \<and> amountCents (Price item) < 2 ^ 51)) \<longrightarrow>
      descriptionRule unrep receipt points =
        points + word_of_int (sum_list (map descriptionBonus (Items receipt))) \<and>
      calculatePoints unrep receipt =
        (case oddDayRule receipt
                (itemCountRule receipt
                   (quarterRule receipt (roundDollarRule receipt (retailerRule receipt 0))) +
                 word_of_int (sum_list (map descriptionBonus (Items receipt)))) of
           Inl p \<Rightarrow> Inl p
         | Inr q \<Rightarrow> Inr (afternoonRule receipt q))"
    by (intro impI conjI) (erule b, erule c)
  have d': "length (ShortDescription item) < 2 ^ 63 \<and>
    (length (TrimSpace (ShortDescription item)) mod 3 = 0 \<longrightarrow>
       validAmount (Price item) \<and> amountCents (Price item) < 2 ^ 51) \<longrightarrow>
      calculatePoints unrep (receipt\<lparr>Items := earlier @ item # later\<rparr>) =
        (case calculatePoints unrep
                (receipt\<lparr>Items := earlier @ item\<lparr>ShortDescription := ''x''\<rparr> # later\<rparr>) of
           Inl p \<Rightarrow> Inl p
         | Inr q \<Rightarrow> Inr (q + word_of_int (descriptionBonus item)))"
    by (intro impI, elim conjE) (erule d, assumption)
  show ?thesis using a' bc d' by (intro conjI)
qed

theorem description_length_bonus_witness:
  "length (ShortDescription klarbrunnItem) < 2 ^ 63 \<and>
   length (TrimSpace (ShortDescription klarbrunnItem)) mod 3 = 0 \<and>
   validAmount (Price klarbrunnItem) \<and> amountCents (Price klarbrunnItem) < 2 ^ 51 \<and>
   itemRule unrep_amd64 klarbrunnItem 0 = 0 + word_of_int 3 \<and>
   list_all (\<lambda>item. length (ShortDescription item) < 2 ^ 63 \<and> validAmount (Price item) \<and>
               amountCents (Price item) < 2 ^ 51) (Items receiptFiveItems) \<and>
   map (\<lambda>item. length (TrimSpace (ShortDescription item)) mod 3) (Items receiptFiveItems) =
     [2, 0, 2, 2, 0] \<and>
   map descriptionBonus (Items receiptFiveItems) = [0, 3, 0, 0, 3] \<and>
   calculatePoints unrep_amd64 receiptFiveItems = Inr 28 \<and>
   calculatePoints unrep_amd64
     (scenarioA\<lparr>Items := Items scenarioA @ klarbrunnItem\<lparr>ShortDescription := ''x''\<rparr> # []\<rparr>) =
     Inr 42 \<and>
   calculatePoints unrep_amd64 (scenarioA\<lparr>Items := Items scenarioA @ klarbrunnItem # []\<rparr>) =
     Inr (42 + word_of_int 3)"
proof -
  have h: "length (ShortDescription klarbrunnItem) < 2 ^ 63"
    by (simp add: klarbrunnItem_def)
  have a: "length (TrimSpace (ShortDescription klarbrunnItem)) mod 3 = 0" by code_simp
  have b: "validAmount (Price klarbrunnItem)" by code_simp
  have c: "amountCents (Price klarbrunnItem) < 2 ^ 51" by code_simp
  have d: "(amountCents (Price klarbrunnItem) + 499) div 500 = 3" by code_simp
  note t = description_length_bonus [of klarbrunnItem unrep_amd64 0 receiptFiveItems]
  note u = description_length_bonus [of klarbrunnItem unrep_amd64 0 scenarioA
      "Items scenarioA" "[]"]
  have i: "itemRule unrep_amd64 klarbrunnItem 0 = 0 + word_of_int 3"
    using t h a b c d by (simp only: ceiling_fifth simp_thms)
  have l: "\<forall>item \<in> set (Items receiptFiveItems). length (ShortDescription item) < 2 ^ 63"
    by (simp add: receiptFiveItems_def klarbrunnItem_def)
  have v: "\<forall>item \<in> set (Items receiptFiveItems).
        validAmount (Price item) \<and> amountCents (Price item) < 2 ^ 51"
    by code_simp
  have la: "list_all (\<lambda>item. length (ShortDescription item) < 2 ^ 63 \<and>
               validAmount (Price item) \<and> amountCents (Price item) < 2 ^ 51)
      (Items receiptFiveItems)"
    using l v by (simp only: list_all_iff ball_conj_distrib simp_thms)
  have hyp: "\<forall>item \<in> set (Items receiptFiveItems).
        length (ShortDescription item) < 2 ^ 63 \<and>
        (length (TrimSpace (ShortDescription item)) mod 3 = 0 \<longrightarrow>
           validAmount (Price item) \<and> amountCents (Price item) < 2 ^ 51)"
    using l v by fast
  have k: "map (\<lambda>item. length (TrimSpace (ShortDescription item)) mod 3)
      (Items receiptFiveItems) = [2, 0, 2, 2, 0]"
    by code_simp
  have "map (\<lambda>item. if length (TrimSpace (ShortDescription item)) mod 3 = 0
      then (amountCents (Price item) + 499) div 500 else 0) (Items receiptFiveItems) =
      [0, 3, 0, 0, 3]"
    by code_simp
  then have m: "map descriptionBonus (Items receiptFiveItems) = [0, 3, 0, 0, 3]"
    by (simp only: descriptionBonus_exact [abs_def])
  have o: "(case oddDayRule receiptFiveItems
                (itemCountRule receiptFiveItems
                   (quarterRule receiptFiveItems
                      (roundDollarRule receiptFiveItems (retailerRule receiptFiveItems 0))) +
                 word_of_int (sum_list [0, 3, 0, 0, 3])) of
           Inl p \<Rightarrow> Inl p
         | Inr q \<Rightarrow> Inr (afternoonRule receiptFiveItems q)) = Inr 28"
    by code_simp
  have "calculatePoints unrep_amd64 receiptFiveItems =
        (case oddDayRule receiptFiveItems
                (itemCountRule receiptFiveItems
                   (quarterRule receiptFiveItems
                      (roundDollarRule receiptFiveItems (retailerRule receiptFiveItems 0))) +
                 word_of_int (sum_list (map descriptionBonus (Items receiptFiveItems)))) of
           Inl p \<Rightarrow> Inl p
         | Inr q \<Rightarrow> Inr (afternoonRule receiptFiveItems q))"
    using t hyp by blast
  then have s: "calculatePoints unrep_amd64 receiptFiveItems = Inr 28"
    unfolding m o .
  have e: "descriptionBonus klarbrunnItem = 3"
    using a d by (simp add: descriptionBonus_exact)
  have x: "calculatePoints unrep_amd64
     (scenarioA\<lparr>Items := Items scenarioA @ klarbrunnItem\<lparr>ShortDescription := ''x''\<rparr> # []\<rparr>) =
     Inr 42"
    by code_simp
  have "calculatePoints unrep_amd64 (scenarioA\<lparr>Items := Items scenarioA @ klarbrunnItem # []\<rparr>) =
        (case calculatePoints unrep_amd64
                (scenarioA\<lparr>Items :=
                   Items scenarioA @ klarbrunnItem\<lparr>ShortDescription := ''x''\<rparr> # []\<rparr>) of
           Inl p \<Rightarrow> Inl p
         | Inr q \<Rightarrow> Inr (q + word_of_int (descriptionBonus klarbrunnItem)))"
    using u h a b c by fast
  then have y: "calculatePoints unrep_amd64
      (scenarioA\<lparr>Items := Items scenarioA @ klarbrunnItem # []\<rparr>) = Inr (42 + word_of_int 3)"
    unfolding x e by simp
  show ?thesis using h a b c i la k m s x y by (intro conjI)
qed

section \<open>The sign of the score\<close>

text \<open>What float64 makes of a price that is not negative is not negative.\<close>

lemma round_half_even_nonneg: "0 \<le> n \<Longrightarrow> 0 < d \<Longrightarrow> 0 \<le> round_half_even n d"
proof -
  assume "0 \<le> n" "0 < d"
  then have "0 \<le> n div d" by (simp add: pos_imp_zdiv_nonneg_iff)
  then show ?thesis by (simp add: round_half_even_def Let_def)
qed

lemma float64_round_nonneg:
  assumes "0 \<le> num" "0 < den"
  shows "(\<exists>m e. float64_round num den = Finite m e \<and> 0 \<le> m) \<or>
         float64_round num den = Infinity False"
proof (cases "num = 0")
  case True
  then show ?thesis by (simp add: float64_round_def)
next
  case False
  then have p: "0 < num" using assms(1) by simp
  define e where "e = max (ilog2 num den - 52) (- 1074)"
  define m where "m = round_half_even (num * 2 ^ nat (- e)) (den * 2 ^ nat e)"
  have "0 \<le> m"
    unfolding m_def using assms by (intro round_half_even_nonneg) simp_all
  then show ?thesis
    using p by (auto simp: float64_round_def Let_def e_def [symmetric] m_def [symmetric])
qed

lemma float64_of_binary_nonneg:
  assumes "0 \<le> m"
  shows "(\<exists>m' e'. float64_of_binary m e = Finite m' e' \<and> 0 \<le> m') \<or>
         float64_of_binary m e = Infinity False"
  unfolding float64_of_binary_def
  using float64_round_nonneg [of "m * 2 ^ nat e" 1] float64_round_nonneg [of m "2 ^ nat (- e)"] assms
  by auto

lemma float64_trunc_nonneg: "0 \<le> m \<Longrightarrow> 0 \<le> float64_trunc m e"
  by (simp add: float64_trunc_def pos_imp_zdiv_nonneg_iff sgn_if)

lemma Ceil_nonneg:
  "0 \<le> m \<Longrightarrow> \<exists>m' e'. Ceil (Finite m e) = Finite m' e' \<and> 0 \<le> m'"
proof -
  assume m: "0 \<le> m"
  have "(- m) div 2 ^ nat (- e) \<le> 0"
    using m by (simp add: div_nonpos_pos_le0)
  then show ?thesis using m by simp
qed

lemma price_points_nonneg:
  assumes "0 \<le> c"
  shows "(\<exists>m e. Ceil (float64_mul (float64_round c 100) (float64_round 1 5)) = Finite m e \<and>
                 0 \<le> float64_trunc m e) \<or>
         Ceil (float64_mul (float64_round c 100) (float64_round 1 5)) = Infinity False"
proof -
  consider m e where "float64_round c 100 = Finite m e" "0 \<le> m"
    | "float64_round c 100 = Infinity False"
    using float64_round_nonneg [OF assms, of 100] by auto
  then show ?thesis
  proof cases
    case 1
    have "0 \<le> m * 7205759403792794" using 1(2) by simp
    then consider m' e' where
        "float64_of_binary (m * 7205759403792794) (e + - 55) = Finite m' e'" "0 \<le> m'"
      | "float64_of_binary (m * 7205759403792794) (e + - 55) = Infinity False"
      using float64_of_binary_nonneg [of "m * 7205759403792794" "e + - 55"] by auto
    then show ?thesis
    proof cases
      case a: 1
      obtain m'' e'' where "Ceil (Finite m' e') = Finite m'' e''" "0 \<le> m''"
        using Ceil_nonneg [OF a(2), of e'] by blast
      then show ?thesis
        using 1(1) a(1) float64_trunc_nonneg [of m'' e'']
        by (simp add: float64_one_fifth)
    next
      case 2
      then show ?thesis using 1(1) by (simp add: float64_one_fifth)
    qed
  next
    case 2
    then show ?thesis by (simp add: float64_one_fifth)
  qed
qed

lemma unboundedItemPoints_nonneg:
  assumes "validItem item"
  shows "0 \<le> unboundedItemPoints item"
proof -
  have v: "validAmount (Price item)" using assms by (simp add: validItem_def)
  have p: "fst (ParseFloat (Price item)) = float64_round (amountCents (Price item)) 100"
    using v by (rule ParseFloat_amount)
  show ?thesis
    using price_points_nonneg [OF amountCents_nonneg [OF v]]
    by (auto simp: unboundedItemPoints_def p)
qed

lemma sum_unboundedItemPoints:
  assumes "list_all validItem items"
  shows "0 \<le> sum_list (map unboundedItemPoints items) \<and>
         (\<forall>item \<in> set items. unboundedItemPoints item \<le> sum_list (map unboundedItemPoints items))"
  using assms
proof (induction items)
  case Nil
  show ?case by simp
next
  case (Cons item items)
  have "0 \<le> unboundedItemPoints item"
    using Cons.prems by (simp add: unboundedItemPoints_nonneg)
  then show ?case using Cons by fastforce
qed

text \<open>
  Where the unbounded points of every item are in the range of \<open>int\<close>, and the number
  of items is, calculatePoints returns the unbounded points of the receipt modulo
  \<open>2^64\<close>.
\<close>

lemma itemRule_unbounded:
  assumes "- (2 ^ 63) \<le> unboundedItemPoints item" "unboundedItemPoints item < 2 ^ 63"
  shows "itemRule unrep item q = q + word_of_int (unboundedItemPoints item)"
proof (cases "go_rem (len (TrimSpace (ShortDescription item))) 3 = 0")
  case False
  then show ?thesis by (simp add: itemRule_def unboundedItemPoints_def)
next
  case True
  show ?thesis
  proof (cases "Ceil (float64_mul (fst (ParseFloat (Price item))) (float64_round 1 5))")
    case (Finite m e)
    then show ?thesis
      using assms True by (simp add: itemRule_def unboundedItemPoints_def Let_def)
  next
    case (Infinity sg)
    then show ?thesis using assms True by (simp add: unboundedItemPoints_def)
  next
    case NaN
    then show ?thesis using assms True by (simp add: unboundedItemPoints_def)
  qed
qed

lemma itemCountRule_unbounded:
  assumes "length (Items receipt) < 2 ^ 63"
  shows "itemCountRule receipt p = p + word_of_int (int (length (Items receipt)) div 2 * 5)"
proof -
  define n where "n = int (length (Items receipt))"
  have s: "sint (len (Items receipt)) = n" using assms by (simp add: sint_len n_def)
  have n0: "0 \<le> n" by (simp add: n_def)
  have two: "sint (2 :: go_int) = 2" by simp
  have "sgn (sint (len (Items receipt))) * sgn (sint (2 :: go_int)) *
      (\<bar>sint (len (Items receipt))\<bar> div \<bar>sint (2 :: go_int)\<bar>) = n div 2"
    unfolding s two using n0 by (cases "n = 0") simp_all
  then have "go_quo (len (Items receipt)) 2 = word_of_int (n div 2)"
    by (simp only: go_quo_def)
  then have "go_quo (len (Items receipt)) 2 * 5 = word_of_int (n div 2 * 5)"
    by simp
  then show ?thesis
    by (simp add: itemCountRule_def Let_def n_def)
qed

lemma calculatePoints_unbounded:
  assumes "length (Items receipt) < 2 ^ 63"
    "\<forall>item \<in> set (Items receipt).
       - (2 ^ 63) \<le> unboundedItemPoints item \<and> unboundedItemPoints item < 2 ^ 63"
    "2 < length (Split (PurchaseDate receipt) CHR ''-'')"
  shows "calculatePoints unrep receipt = Inr (word_of_int (unboundedPoints receipt))"
proof -
  have r: "retailerRule receipt 0 =
      word_of_int (int (length (FindAllString_alnum (Retailer receipt))))"
    by (simp add: retailerRule_def Let_def len_def)
  have d: "descriptionRule unrep receipt q =
      q + word_of_int (sum_list (map unboundedItemPoints (Items receipt)))" for q
    unfolding descriptionRule_def
    by (rule fold_itemRule_sum) (use assms(2) in \<open>simp add: itemRule_unbounded\<close>)
  show ?thesis
    using assms(3)
    by (simp add: calculatePoints_def Let_def r roundDollarRule_def quarterRule_def
        itemCountRule_unbounded [OF assms(1)] d oddDayRule_def afternoonRule_def
        unboundedPoints_def split: prod.splits option.splits)
qed

text \<open>
  C7 as stated fails where \<open>int\<close> overflows: a valid receipt with two items of forty
  quintillion each earns \<open>8 * 10^18\<close> points for each item, and the sum wraps around to
  a negative score.
\<close>

theorem nonnegative_score_counterexample:
  "validReceipt receiptHuge \<and>
   calculatePoints unrep_amd64 receiptHuge = Inr (word_of_int (- 2446744073709551574)) \<and>
   sint (word_of_int (- 2446744073709551574) :: go_int) < 0"
proof -
  have "validReceipt receiptHuge" by code_simp
  moreover have "calculatePoints unrep_amd64 receiptHuge =
      Inr (word_of_int (- 2446744073709551574))"
    by code_simp
  moreover have "sint (word_of_int (- 2446744073709551574) :: go_int) < 0" by simp
  ultimately show ?thesis by blast
qed

text \<open>
  C7, amended: for every valid receipt on which the sum of the seven rules'
  contributions, taken in the integers (\<open>unboundedPoints\<close>), is below \<open>2^63\<close>,
  calculatePoints returns that sum, and it is not negative.
\<close>

theorem nonnegative_score:
  assumes "validReceipt receipt" "unboundedPoints receipt < 2 ^ 63"
  shows "\<exists>points. calculatePoints unrep receipt = Inr points \<and>
           sint points = unboundedPoints receipt \<and> 0 \<le> sint points"
proof -
  define R where "R = int (length (FindAllString_alnum (Retailer receipt)))"
  define A :: int where "A = (if HasSuffix (Total receipt) ''.00'' then 50 else 0)"
  define B :: int where
    "B = (if go_rem (fst (Atoi (ReplaceAll (Total receipt) CHR ''.'' []))) 25 = 0 then 25 else 0)"
  define C where "C = int (length (Items receipt)) div 2 * 5"
  define S where "S = sum_list (map unboundedItemPoints (Items receipt))"
  define D :: int where "D = (let dateParts = Split (PurchaseDate receipt) CHR ''-''
      in if length dateParts \<le> 2 then 0
         else (case Atoi (dateParts ! 2) of
                 (day, None) \<Rightarrow> if go_rem day 2 = 1 then 6 else 0
               | (day, Some err) \<Rightarrow> 0))"
  define F :: int where "F = (case Parse_15_04 (PurchaseTime receipt) of
        None \<Rightarrow> 0
      | Some (hour, minute) \<Rightarrow> if (hour = 14 \<and> minute > 0) \<or> hour = 15 then 10 else 0)"
  have E: "unboundedPoints receipt = R + A + B + C + S + D + F"
    by (simp only: unboundedPoints_def R_def A_def B_def C_def S_def D_def F_def)
  have items: "list_all validItem (Items receipt)"
    using assms(1) by (simp add: validReceipt_def)
  have S0: "0 \<le> S" and Si: "\<forall>item \<in> set (Items receipt). unboundedItemPoints item \<le> S"
    unfolding S_def using sum_unboundedItemPoints [OF items] by simp_all
  have R0: "0 \<le> R" by (simp add: R_def)
  have A0: "0 \<le> A" by (simp add: A_def)
  have B0: "0 \<le> B" by (simp add: B_def)
  have C0: "0 \<le> C" by (simp add: C_def)
  have D0: "0 \<le> D" by (simp add: D_def Let_def split: prod.splits option.splits)
  have F0: "0 \<le> F" by (simp add: F_def split: prod.splits option.splits)
  have total: "R + A + B + C + S + D + F < 2 ^ 63" using assms(2) E by simp
  have n: "length (Items receipt) < 2 ^ 63"
  proof -
    have "C < 2 ^ 63" using total R0 A0 B0 S0 D0 F0 by linarith
    then have "int (length (Items receipt)) div 2 * 5 < 9223372036854775808"
      by (simp add: C_def)
    moreover have "int (length (Items receipt)) =
        2 * (int (length (Items receipt)) div 2) + int (length (Items receipt)) mod 2"
      by simp
    moreover have "int (length (Items receipt)) mod 2 < 2" by simp
    ultimately have "int (length (Items receipt)) < 9223372036854775808" by linarith
    then have "int (length (Items receipt)) < 2 ^ 63" by simp
    then show ?thesis by (simp add: of_nat_less_numeral_power_cancel_iff)
  qed
  have "S < 2 ^ 63" using total R0 A0 B0 C0 D0 F0 by linarith
  then have range: "\<forall>item \<in> set (Items receipt).
       - (2 ^ 63) \<le> unboundedItemPoints item \<and> unboundedItemPoints item < 2 ^ 63"
    using Si items unboundedItemPoints_nonneg by (fastforce simp: list_all_iff)
  have date: "2 < length (Split (PurchaseDate receipt) CHR ''-'')"
    using assms(1) by (simp add: validReceipt_def validDate_Split)
  have c: "calculatePoints unrep receipt = Inr (word_of_int (unboundedPoints receipt))"
    by (rule calculatePoints_unbounded [OF n range date])
  have nn: "0 \<le> unboundedPoints receipt"
    unfolding E using R0 A0 B0 C0 S0 D0 F0 by linarith
  then have "sint (word_of_int (unboundedPoints receipt) :: go_int) = unboundedPoints receipt"
    using assms(2) by (intro sint_word_of_int) linarith+
  then show ?thesis using c nn by simp
qed

theorem nonnegative_score_witness:
  "validReceipt receiptQuadrillion \<and> unboundedPoints receiptQuadrillion < 2 ^ 63 \<and>
   unboundedPoints receiptQuadrillion = 1800000000000037 \<and>
   (\<exists>points. calculatePoints unrep_amd64 receiptQuadrillion = Inr points \<and>
      sint points = unboundedPoints receiptQuadrillion \<and> 0 \<le> sint points)"
proof -
  have a: "validReceipt receiptQuadrillion" by code_simp
  have u: "unboundedPoints receiptQuadrillion = 1800000000000037" by code_simp
  have b: "unboundedPoints receiptQuadrillion < 2 ^ 63" unfolding u by simp
  show ?thesis using nonnegative_score [OF a b, of unrep_amd64] a b u by (intro conjI)
qed

end
